theory Spec2Isabelle
  imports Main
begin

section \<open>The element type and the abstract machine\<close>

text \<open>
  The container of \<^verbatim>\<open>vector.h\<close> is generic in its element type \<^verbatim>\<open>T\<close>. What the code
  asks of \<^verbatim>\<open>T\<close> is recorded here: the two traits of the \<^verbatim>\<open>if constexpr\<close> tests, the
  value of \<^verbatim>\<open>T()\<close>, the state a move leaves its source in (valid but chosen by
  \<^verbatim>\<open>T\<close>, hence a function parameter), and \<^verbatim>\<open>sizeof(T)\<close> in bytes.
\<close>

record 'a elem_type =
  nothrow_move_constructible :: bool
  copy_constructible :: bool
  value_init :: 'a
  moved_from :: "'a \<Rightarrow> 'a"
  size_of :: nat

text \<open>
  The machine state outside the container: the number of constructor calls made so far and
  the call that throws (\<open>0\<close>: none), the number of objects constructed and not yet
  destroyed, and the number of blocks acquired with \<^verbatim>\<open>operator new\<close> and not yet released.
  Acquiring memory always succeeds; assignment operators and destructors of \<^verbatim>\<open>T\<close> do not
  throw.
\<close>

record world =
  ctor_calls :: nat
  throw_at :: nat
  live :: int
  blocks :: int

text \<open>
  A call either returns, or propagates an exception (with the state it leaves behind), or
  has undefined behaviour: an access outside a block, a read or a destructor call on a slot
  that holds no object, an invalid iterator range.
\<close>

datatype 's error = Throw 's | UB

text \<open>A block of raw memory: one slot per element, \<open>None\<close> where no object lives.\<close>

type_synonym 'a block = "'a option list"

text \<open>A throwing constructor of \<^verbatim>\<open>T\<close>: \<open>False\<close> when this call throws.\<close>

definition ctor :: "world \<Rightarrow> bool \<times> world" where
  "ctor w =
     (let w' = w\<lparr>ctor_calls := ctor_calls w + 1\<rparr>
      in if ctor_calls w' = throw_at w then (False, w')
         else (True, w'\<lparr>live := live w' + 1\<rparr>))"

text \<open>The move constructor: it cannot throw when the trait says so.\<close>

definition move_ctor :: "'a elem_type \<Rightarrow> world \<Rightarrow> bool \<times> world" where
  "move_ctor T w =
     (if nothrow_move_constructible T then (True, w\<lparr>live := live w + 1\<rparr>) else ctor w)"

text \<open>Placement new, \<^verbatim>\<open>new (p + i) T(v)\<close>.\<close>

definition construct_at ::
  "'a block \<Rightarrow> nat \<Rightarrow> 'a \<Rightarrow> world \<Rightarrow> ('a block \<times> world) error + 'a block \<times> world" where
  "construct_at b i v w =
     (if i < length b then
        (case ctor w of
           (False, w') \<Rightarrow> Inl (Throw (b, w'))
         | (True, w') \<Rightarrow> Inr (b[i := Some v], w'))
      else Inl UB)"

text \<open>\<^verbatim>\<open>std::destroy_n(p + i, n)\<close>.\<close>

fun destroy_n ::
  "'a block \<Rightarrow> nat \<Rightarrow> nat \<Rightarrow> world \<Rightarrow> ('a block \<times> world) error + 'a block \<times> world" where
  "destroy_n b i 0 w = Inr (b, w)"
| "destroy_n b i (Suc n) w =
     (if i < length b then
        (case b ! i of
           None \<Rightarrow> Inl UB
         | Some _ \<Rightarrow> destroy_n (b[i := None]) (i + 1) n (w\<lparr>live := live w - 1\<rparr>))
      else Inl UB)"

text \<open>
  \<^verbatim>\<open>std::uninitialized_copy_n(first, n, d_first)\<close>: the loop constructs one element after
  the other; when a constructor throws, the elements built so far are destroyed and the
  exception goes on. The loop reports how far it came.
\<close>

fun uninit_copy_loop ::
  "'a block \<Rightarrow> nat \<Rightarrow> nat \<Rightarrow> 'a block \<Rightarrow> nat \<Rightarrow> world
     \<Rightarrow> ('a block \<times> nat \<times> world) error + 'a block \<times> world" where
  "uninit_copy_loop src first 0 dst cur w = Inr (dst, w)"
| "uninit_copy_loop src first (Suc n) dst cur w =
     (if first < length src then
        (case src ! first of
           None \<Rightarrow> Inl UB
         | Some v \<Rightarrow>
             (case construct_at dst cur v w of
                Inl UB \<Rightarrow> Inl UB
              | Inl (Throw (dst', w')) \<Rightarrow> Inl (Throw (dst', cur, w'))
              | Inr (dst', w') \<Rightarrow> uninit_copy_loop src (first + 1) n dst' (cur + 1) w'))
      else Inl UB)"

definition uninitialized_copy_n ::
  "'a block \<Rightarrow> nat \<Rightarrow> nat \<Rightarrow> 'a block \<Rightarrow> nat \<Rightarrow> world
     \<Rightarrow> ('a block \<times> world) error + 'a block \<times> world" where
  "uninitialized_copy_n src first n dst d_first w =
     (case uninit_copy_loop src first n dst d_first w of
        Inl UB \<Rightarrow> Inl UB
      | Inl (Throw (dst', cur, w')) \<Rightarrow>
          (case destroy_n dst' d_first (cur - d_first) w' of
             Inl _ \<Rightarrow> Inl UB
           | Inr s \<Rightarrow> Inl (Throw s))
      | Inr s \<Rightarrow> Inr s)"

text \<open>
  \<^verbatim>\<open>std::uninitialized_move_n(first, n, d_first)\<close>: as above with the move constructor;
  each source element is left moved-from. The source block is part of the state.
\<close>

fun uninit_move_loop ::
  "'a elem_type \<Rightarrow> 'a block \<Rightarrow> nat \<Rightarrow> nat \<Rightarrow> 'a block \<Rightarrow> nat \<Rightarrow> world
     \<Rightarrow> ('a block \<times> 'a block \<times> nat \<times> world) error + 'a block \<times> 'a block \<times> world" where
  "uninit_move_loop T src first 0 dst cur w = Inr (src, dst, w)"
| "uninit_move_loop T src first (Suc n) dst cur w =
     (if first < length src \<and> cur < length dst then
        (case src ! first of
           None \<Rightarrow> Inl UB
         | Some v \<Rightarrow>
             (case move_ctor T w of
                (False, w') \<Rightarrow> Inl (Throw (src, dst, cur, w'))
              | (True, w') \<Rightarrow>
                  uninit_move_loop T (src[first := Some (moved_from T v)]) (first + 1) n
                    (dst[cur := Some v]) (cur + 1) w'))
      else Inl UB)"

definition uninitialized_move_n ::
  "'a elem_type \<Rightarrow> 'a block \<Rightarrow> nat \<Rightarrow> nat \<Rightarrow> 'a block \<Rightarrow> nat \<Rightarrow> world
     \<Rightarrow> ('a block \<times> 'a block \<times> world) error + 'a block \<times> 'a block \<times> world" where
  "uninitialized_move_n T src first n dst d_first w =
     (case uninit_move_loop T src first n dst d_first w of
        Inl UB \<Rightarrow> Inl UB
      | Inl (Throw (src', dst', cur, w')) \<Rightarrow>
          (case destroy_n dst' d_first (cur - d_first) w' of
             Inl _ \<Rightarrow> Inl UB
           | Inr (dst'', w'') \<Rightarrow> Inl (Throw (src', dst'', w'')))
      | Inr s \<Rightarrow> Inr s)"

text \<open>
  The copy alternative of the \<^verbatim>\<open>if constexpr\<close> blocks, with the (unchanged) source block
  added to its result so that both alternatives have one type.
\<close>

definition copy_keeping_source ::
  "'a block \<Rightarrow> nat \<Rightarrow> nat \<Rightarrow> 'a block \<Rightarrow> nat \<Rightarrow> world
     \<Rightarrow> ('a block \<times> 'a block \<times> world) error + 'a block \<times> 'a block \<times> world" where
  "copy_keeping_source src first n dst d_first w =
     (case uninitialized_copy_n src first n dst d_first w of
        Inl UB \<Rightarrow> Inl UB
      | Inl (Throw (dst', w')) \<Rightarrow> Inl (Throw (src, dst', w'))
      | Inr (dst', w') \<Rightarrow> Inr (src, dst', w'))"

text \<open>
  \<^verbatim>\<open>std::is_nothrow_move_constructible_v<T> || !std::is_copy_constructible_v<T>\<close>
\<close>

definition moves_elements :: "'a elem_type \<Rightarrow> bool" where
  "moves_elements T \<longleftrightarrow> nothrow_move_constructible T \<or> \<not> copy_constructible T"

text \<open>\<^verbatim>\<open>std::uninitialized_value_construct_n(p + d_first, n)\<close>.\<close>

fun uninit_value_loop ::
  "'a elem_type \<Rightarrow> 'a block \<Rightarrow> nat \<Rightarrow> nat \<Rightarrow> world
     \<Rightarrow> ('a block \<times> nat \<times> world) error + 'a block \<times> world" where
  "uninit_value_loop T dst cur 0 w = Inr (dst, w)"
| "uninit_value_loop T dst cur (Suc n) w =
     (case construct_at dst cur (value_init T) w of
        Inl UB \<Rightarrow> Inl UB
      | Inl (Throw (dst', w')) \<Rightarrow> Inl (Throw (dst', cur, w'))
      | Inr (dst', w') \<Rightarrow> uninit_value_loop T dst' (cur + 1) n w')"

definition uninitialized_value_construct_n ::
  "'a elem_type \<Rightarrow> 'a block \<Rightarrow> nat \<Rightarrow> nat \<Rightarrow> world
     \<Rightarrow> ('a block \<times> world) error + 'a block \<times> world" where
  "uninitialized_value_construct_n T dst d_first n w =
     (case uninit_value_loop T dst d_first n w of
        Inl UB \<Rightarrow> Inl UB
      | Inl (Throw (dst', cur, w')) \<Rightarrow>
          (case destroy_n dst' d_first (cur - d_first) w' of
             Inl _ \<Rightarrow> Inl UB
           | Inr s \<Rightarrow> Inl (Throw s))
      | Inr s \<Rightarrow> Inr s)"

text \<open>
  \<^verbatim>\<open>std::copy_n(first, n, d_first)\<close> from one block to another: copy assignment, element
  by element, onto live objects. \<open>None\<close> is undefined behaviour.
\<close>

fun copy_n :: "'a block \<Rightarrow> nat \<Rightarrow> nat \<Rightarrow> 'a block \<Rightarrow> nat \<Rightarrow> 'a block option" where
  "copy_n src first 0 dst d_first = Some dst"
| "copy_n src first (Suc n) dst d_first =
     (if first < length src \<and> d_first < length dst then
        (case (src ! first, dst ! d_first) of
           (Some v, Some _) \<Rightarrow> copy_n src (first + 1) n (dst[d_first := Some v]) (d_first + 1)
         | _ \<Rightarrow> None)
      else None)"

text \<open>
  \<^verbatim>\<open>std::move_backward(first, last, d_last)\<close> inside one block: move assignment from the
  last element down. The range must be valid (\<open>first \<le> last\<close>).
\<close>

fun move_backward_loop :: "'a elem_type \<Rightarrow> 'a block \<Rightarrow> nat \<Rightarrow> nat \<Rightarrow> nat \<Rightarrow> 'a block option" where
  "move_backward_loop T b lastp 0 d_last = Some b"
| "move_backward_loop T b lastp (Suc n) d_last =
     (if 0 < lastp \<and> 0 < d_last \<and> lastp - 1 < length b \<and> d_last - 1 < length b then
        (case (b ! (lastp - 1), b ! (d_last - 1)) of
           (Some v, Some _) \<Rightarrow>
             move_backward_loop T
               (b[lastp - 1 := Some (moved_from T v), d_last - 1 := Some v]) (lastp - 1) n (d_last - 1)
         | _ \<Rightarrow> None)
      else None)"

definition move_backward :: "'a elem_type \<Rightarrow> 'a block \<Rightarrow> nat \<Rightarrow> nat \<Rightarrow> nat \<Rightarrow> 'a block option" where
  "move_backward T b first lastp d_last =
     (if first \<le> lastp then move_backward_loop T b lastp (lastp - first) d_last else None)"

text \<open>\<^verbatim>\<open>std::move(first, last, d_first)\<close> inside one block: move assignment, front first.\<close>

fun move_loop :: "'a elem_type \<Rightarrow> 'a block \<Rightarrow> nat \<Rightarrow> nat \<Rightarrow> nat \<Rightarrow> 'a block option" where
  "move_loop T b first 0 d_first = Some b"
| "move_loop T b first (Suc n) d_first =
     (if first < length b \<and> d_first < length b then
        (case (b ! first, b ! d_first) of
           (Some v, Some _) \<Rightarrow>
             move_loop T (b[first := Some (moved_from T v), d_first := Some v]) (first + 1) n
               (d_first + 1)
         | _ \<Rightarrow> None)
      else None)"

definition move_range :: "'a elem_type \<Rightarrow> 'a block \<Rightarrow> nat \<Rightarrow> nat \<Rightarrow> nat \<Rightarrow> 'a block option" where
  "move_range T b first lastp d_first =
     (if first \<le> lastp then move_loop T b first (lastp - first) d_first else None)"

section \<open>RawMemory\<close>

text \<open>
  The members \<^verbatim>\<open>buffer_\<close> and \<^verbatim>\<open>capacity_\<close> are the fields \<open>buffer\<close> and
  \<open>capacity\<close>. \<open>buffer\<close> is the owning pointer: \<open>None\<close> is \<^verbatim>\<open>nullptr\<close>, \<open>Some b\<close> points to the block
  \<open>b\<close>. A block has exactly one owner, so it is kept by value.
\<close>

record 'a RawMemory =
  buffer :: "'a block option"
  capacity :: nat

text \<open>
  \<^verbatim>\<open>Allocate(size_t n)\<close> asks \<^verbatim>\<open>operator new\<close> for \<^verbatim>\<open>n * sizeof(T)\<close> bytes, a product
  computed in the 64-bit \<^verbatim>\<open>size_t\<close>: it wraps around for \<open>n \<ge> 2^64 / sizeof(T)\<close>, and the
  block then has room for fewer than \<open>n\<close> elements. \<^verbatim>\<open>operator new(0)\<close> returns a block
  without room for any element.
\<close>

definition Allocate :: "'a elem_type \<Rightarrow> nat \<Rightarrow> world \<Rightarrow> 'a block option \<times> world" where
  "Allocate T n w =
     (if n \<noteq> 0
      then (Some (replicate (((n * size_of T) mod 2 ^ 64) div size_of T) None),
            w\<lparr>blocks := blocks w + 1\<rparr>)
      else (None, w))"

definition Deallocate :: "'a block option \<Rightarrow> world \<Rightarrow> world" where
  "Deallocate buf w = (case buf of None \<Rightarrow> w | Some _ \<Rightarrow> w\<lparr>blocks := blocks w - 1\<rparr>)"

definition RawMemory_default :: "'a RawMemory" where
  "RawMemory_default = \<lparr>buffer = None, capacity = 0\<rparr>"

text \<open>\<^verbatim>\<open>explicit RawMemory(size_t capacity)\<close>\<close>

definition RawMemory_new :: "'a elem_type \<Rightarrow> nat \<Rightarrow> world \<Rightarrow> 'a RawMemory \<times> world" where
  "RawMemory_new T n w =
     (case Allocate T n w of (buf, w') \<Rightarrow> (\<lparr>buffer = buf, capacity = n\<rparr>, w'))"

text \<open>
  The request \<open>n\<close> fits when \<^verbatim>\<open>n * sizeof(T)\<close> does not wrap around; \<^verbatim>\<open>sizeof(T)\<close> is
  at least 1.
\<close>

definition fits :: "'a elem_type \<Rightarrow> nat \<Rightarrow> bool" where
  "fits T n \<longleftrightarrow> 0 < size_of T \<and> n * size_of T < 2 ^ 64"

text \<open>
  The same two functions where the product cannot wrap around and the block has room for
  exactly \<open>n\<close> elements: \<open>n\<close> is 1, or the number of elements of a vector, or twice that
  number, and the elements of a vector are in memory, in a block smaller than half the
  address space. It is the constructor called by the copy constructor, by \<^verbatim>\<open>EmplaceBack\<close>
  and by \<^verbatim>\<open>Emplace\<close>. In \<^verbatim>\<open>Vector(size_t)\<close> and \<^verbatim>\<open>Reserve\<close> the caller chooses \<open>n\<close>.
\<close>

definition Allocate_exact :: "nat \<Rightarrow> world \<Rightarrow> 'a block option \<times> world" where
  "Allocate_exact n w =
     (if n \<noteq> 0 then (Some (replicate n None), w\<lparr>blocks := blocks w + 1\<rparr>) else (None, w))"

definition RawMemory_exact :: "nat \<Rightarrow> world \<Rightarrow> 'a RawMemory \<times> world" where
  "RawMemory_exact n w =
     (case Allocate_exact n w of (buf, w') \<Rightarrow> (\<lparr>buffer = buf, capacity = n\<rparr>, w'))"

definition RawMemory_destroy :: "'a RawMemory \<Rightarrow> world \<Rightarrow> world" where
  "RawMemory_destroy m w = Deallocate (buffer m) w"

definition RawMemory_Swap :: "'a RawMemory \<Rightarrow> 'a RawMemory \<Rightarrow> 'a RawMemory \<times> 'a RawMemory" where
  "RawMemory_Swap this other =
     (this\<lparr>buffer := buffer other, capacity := capacity other\<rparr>,
      other\<lparr>buffer := buffer this, capacity := capacity this\<rparr>)"

text \<open>\<^verbatim>\<open>RawMemory(RawMemory&& other)\<close>: the new object starts from the default members.\<close>

definition RawMemory_move :: "'a RawMemory \<Rightarrow> 'a RawMemory \<times> 'a RawMemory" where
  "RawMemory_move other = RawMemory_Swap RawMemory_default other"

text \<open>
  \<^verbatim>\<open>RawMemory::operator=(RawMemory&& rhs)\<close> for two different objects (the caller tests
  the addresses): the two \<^verbatim>\<open>std::exchange\<close> calls; the old \<^verbatim>\<open>buffer_\<close> of \<open>this\<close> is
  overwritten.
\<close>

definition RawMemory_move_assign :: "'a RawMemory \<Rightarrow> 'a RawMemory \<Rightarrow> 'a RawMemory \<times> 'a RawMemory" where
  "RawMemory_move_assign this rhs =
     (this\<lparr>buffer := buffer rhs, capacity := capacity rhs\<rparr>,
      rhs\<lparr>buffer := None, capacity := 0\<rparr>)"

text \<open>The slots reachable through \<^verbatim>\<open>GetAddress()\<close>: none through a null pointer.\<close>

definition cells :: "'a RawMemory \<Rightarrow> 'a block" where
  "cells m = (case buffer m of None \<Rightarrow> [] | Some b \<Rightarrow> b)"

definition set_cells :: "'a RawMemory \<Rightarrow> 'a block \<Rightarrow> 'a RawMemory" where
  "set_cells m b = (case buffer m of None \<Rightarrow> m | Some _ \<Rightarrow> m\<lparr>buffer := Some b\<rparr>)"

section \<open>Vector\<close>

text \<open>
  The members \<^verbatim>\<open>data_\<close> and \<^verbatim>\<open>size_\<close> are the fields \<open>data\<close> and \<open>size_v\<close>. An
  iterator is modelled by its offset from \<^verbatim>\<open>begin()\<close>, a reference to an element by the
  index of the element. Sizes are natural numbers: \<^verbatim>\<open>size_ * 2\<close> cannot wrap around for a
  block that fits the address space, and every subtraction of sizes in the code is guarded
  by the branch it stands in or follows an access that is already undefined.
\<close>

record 'a Vector =
  data :: "'a RawMemory"
  size_v :: nat

definition slots :: "'a Vector \<Rightarrow> 'a block" where
  "slots v = cells (data v)"

definition with_slots :: "'a Vector \<Rightarrow> 'a block \<Rightarrow> 'a Vector" where
  "with_slots v b = v\<lparr>data := set_cells (data v) b\<rparr>"

definition Size :: "'a Vector \<Rightarrow> nat" where
  "Size v = size_v v"

definition Capacity :: "'a Vector \<Rightarrow> nat" where
  "Capacity v = capacity (data v)"

text \<open>
  \<^verbatim>\<open>operator[]\<close>: \<open>None\<close> is undefined behaviour (the assertion \<^verbatim>\<open>index < size_\<close>
  fails, or the slot is outside the block or holds no object).
\<close>

definition subscript :: "'a Vector \<Rightarrow> nat \<Rightarrow> 'a option" where
  "subscript v index =
     (if index < size_v v \<and> index < length (slots v) then slots v ! index else None)"

text \<open>\<^verbatim>\<open>Vector() = default\<close>\<close>

definition Vector_default :: "'a Vector" where
  "Vector_default = \<lparr>data = RawMemory_default, size_v = 0\<rparr>"

text \<open>
  \<^verbatim>\<open>explicit Vector(size_t size)\<close>. When the body throws, the member \<^verbatim>\<open>data_\<close> is
  destroyed and no object comes into being: the state left is the world alone.
\<close>

definition Vector_sized :: "'a elem_type \<Rightarrow> nat \<Rightarrow> world \<Rightarrow> world error + 'a Vector \<times> world" where
  "Vector_sized T n w =
     (case RawMemory_new T n w of
        (d, w1) \<Rightarrow>
          (case uninitialized_value_construct_n T (cells d) 0 n w1 of
             Inl UB \<Rightarrow> Inl UB
           | Inl (Throw (b, w2)) \<Rightarrow> Inl (Throw (RawMemory_destroy (set_cells d b) w2))
           | Inr (b, w2) \<Rightarrow> Inr (\<lparr>data = set_cells d b, size_v = n\<rparr>, w2)))"

text \<open>\<^verbatim>\<open>Vector(const Vector& other)\<close>\<close>

definition Vector_copy :: "'a Vector \<Rightarrow> world \<Rightarrow> world error + 'a Vector \<times> world" where
  "Vector_copy other w =
     (case RawMemory_exact (size_v other) w of
        (d, w1) \<Rightarrow>
          (case uninitialized_copy_n (slots other) 0 (size_v other) (cells d) 0 w1 of
             Inl UB \<Rightarrow> Inl UB
           | Inl (Throw (b, w2)) \<Rightarrow> Inl (Throw (RawMemory_destroy (set_cells d b) w2))
           | Inr (b, w2) \<Rightarrow> Inr (\<lparr>data = set_cells d b, size_v = size_v other\<rparr>, w2)))"

text \<open>\<^verbatim>\<open>Vector(Vector&& other) noexcept\<close>: the new vector and what is left of \<open>other\<close>.\<close>

definition Vector_move :: "'a Vector \<Rightarrow> 'a Vector \<times> 'a Vector" where
  "Vector_move other =
     (case RawMemory_move (data other) of
        (d, od) \<Rightarrow> (\<lparr>data = d, size_v = size_v other\<rparr>, other\<lparr>data := od, size_v := 0\<rparr>))"

text \<open>\<^verbatim>\<open>~Vector()\<close>, followed by the destructor of the member \<^verbatim>\<open>data_\<close>.\<close>

definition Vector_destroy :: "'a Vector \<Rightarrow> world \<Rightarrow> world option" where
  "Vector_destroy v w =
     (case destroy_n (slots v) 0 (size_v v) w of
        Inl _ \<Rightarrow> None
      | Inr (b, w1) \<Rightarrow> Some (RawMemory_destroy (data v) w1))"

definition Swap :: "'a Vector \<Rightarrow> 'a Vector \<Rightarrow> 'a Vector \<times> 'a Vector" where
  "Swap this other =
     (case RawMemory_Swap (data this) (data other) of
        (d, od) \<Rightarrow> (this\<lparr>data := d, size_v := size_v other\<rparr>,
                    other\<lparr>data := od, size_v := size_v this\<rparr>))"

text \<open>
  \<^verbatim>\<open>operator=(const Vector& rhs)\<close>, the body under \<^verbatim>\<open>this != &rhs\<close>, on two different
  objects. \<open>rhs\<close> is not changed.
\<close>

definition copy_assign ::
  "'a Vector \<Rightarrow> 'a Vector \<Rightarrow> world \<Rightarrow> ('a Vector \<times> world) error + 'a Vector \<times> world" where
  "copy_assign this rhs w =
     (if size_v rhs > capacity (data this) then
        (case Vector_copy rhs w of
           Inl UB \<Rightarrow> Inl UB
         | Inl (Throw w1) \<Rightarrow> Inl (Throw (this, w1))
         | Inr (tmp, w1) \<Rightarrow>
             (case Swap this tmp of
                (this', tmp') \<Rightarrow>
                  (case Vector_destroy tmp' w1 of
                     None \<Rightarrow> Inl UB
                   | Some w2 \<Rightarrow> Inr (this', w2))))
      else if Size rhs < size_v this then
        (case copy_n (slots rhs) 0 (Size rhs) (slots this) 0 of
           None \<Rightarrow> Inl UB
         | Some b \<Rightarrow>
             (case destroy_n b (Size rhs) (size_v this - Size rhs) w of
                Inl _ \<Rightarrow> Inl UB
              | Inr (b', w1) \<Rightarrow> Inr ((with_slots this b')\<lparr>size_v := Size rhs\<rparr>, w1)))
      else
        (case copy_n (slots rhs) 0 (size_v this) (slots this) 0 of
           None \<Rightarrow> Inl UB
         | Some b \<Rightarrow>
             (case uninitialized_copy_n (slots rhs) 0 (Size rhs - size_v this) b 0 w of
                Inl UB \<Rightarrow> Inl UB
              | Inl (Throw (b', w1)) \<Rightarrow> Inl (Throw (with_slots this b', w1))
              | Inr (b', w1) \<Rightarrow> Inr ((with_slots this b')\<lparr>size_v := Size rhs\<rparr>, w1))))"

text \<open>
  \<^verbatim>\<open>operator=(Vector&& rhs) noexcept\<close>, the body under \<^verbatim>\<open>this != &rhs\<close>: the new
  \<open>this\<close> and what is left of \<open>rhs\<close>. No destructor and no \<^verbatim>\<open>Deallocate\<close> is called,
  so the world is not changed.
\<close>

definition move_assign :: "'a Vector \<Rightarrow> 'a Vector \<Rightarrow> 'a Vector \<times> 'a Vector" where
  "move_assign this rhs =
     (case RawMemory_move_assign (data this) (data rhs) of
        (d, rd) \<Rightarrow> (this\<lparr>data := d, size_v := size_v rhs\<rparr>, rhs\<lparr>data := rd, size_v := 0\<rparr>))"

text \<open>
  The two assignment operators with their test \<^verbatim>\<open>this != &rhs\<close>: the vectors are objects
  of a store, named by their addresses.
\<close>

type_synonym 'a store = "nat \<Rightarrow> 'a Vector"

definition operator_assign_copy ::
  "nat \<Rightarrow> nat \<Rightarrow> 'a store \<Rightarrow> world \<Rightarrow> ('a store \<times> world) error + 'a store \<times> world" where
  "operator_assign_copy this rhs st w =
     (if this \<noteq> rhs then
        (case copy_assign (st this) (st rhs) w of
           Inl UB \<Rightarrow> Inl UB
         | Inl (Throw (v, w')) \<Rightarrow> Inl (Throw (st(this := v), w'))
         | Inr (v, w') \<Rightarrow> Inr (st(this := v), w'))
      else Inr (st, w))"

definition operator_assign_move :: "nat \<Rightarrow> nat \<Rightarrow> 'a store \<Rightarrow> 'a store" where
  "operator_assign_move this rhs st =
     (if this \<noteq> rhs then
        (case move_assign (st this) (st rhs) of (a, b) \<Rightarrow> st(this := a, rhs := b))
      else st)"

text \<open>\<^verbatim>\<open>Reserve(size_t new_capacity)\<close>\<close>

definition Reserve ::
  "'a elem_type \<Rightarrow> nat \<Rightarrow> 'a Vector \<Rightarrow> world \<Rightarrow> ('a Vector \<times> world) error + 'a Vector \<times> world" where
  "Reserve T new_capacity v w =
     (if new_capacity \<le> Capacity v then Inr (v, w)
      else
        (case RawMemory_new T new_capacity w of
           (new_data, w1) \<Rightarrow>
             (case (if moves_elements T
                    then uninitialized_move_n T (slots v) 0 (size_v v) (cells new_data) 0 w1
                    else copy_keeping_source (slots v) 0 (size_v v) (cells new_data) 0 w1) of
                Inl UB \<Rightarrow> Inl UB
              | Inl (Throw (old, nb, w2)) \<Rightarrow>
                  Inl (Throw (with_slots v old, RawMemory_destroy (set_cells new_data nb) w2))
              | Inr (old, nb, w2) \<Rightarrow>
                  (case destroy_n old 0 (size_v v) w2 of
                     Inl _ \<Rightarrow> Inl UB
                   | Inr (old', w3) \<Rightarrow>
                       (case RawMemory_Swap (set_cells new_data nb) (data (with_slots v old')) of
                          (nd, d) \<Rightarrow> Inr (v\<lparr>data := d\<rparr>, RawMemory_destroy nd w3))))))"

text \<open>\<^verbatim>\<open>Resize(size_t new_size)\<close>\<close>

definition Resize ::
  "'a elem_type \<Rightarrow> nat \<Rightarrow> 'a Vector \<Rightarrow> world \<Rightarrow> ('a Vector \<times> world) error + 'a Vector \<times> world" where
  "Resize T new_size v w =
     (if size_v v > new_size then
        (case destroy_n (slots v) new_size (size_v v - new_size) w of
           Inl _ \<Rightarrow> Inl UB
         | Inr (b, w1) \<Rightarrow> Inr ((with_slots v b)\<lparr>size_v := new_size\<rparr>, w1))
      else
        (case Reserve T new_size v w of
           Inl e \<Rightarrow> Inl e
         | Inr (v1, w1) \<Rightarrow>
             (case uninitialized_value_construct_n T (slots v1) (size_v v1)
                     (new_size - size_v v1) w1 of
                Inl UB \<Rightarrow> Inl UB
              | Inl (Throw (b, w2)) \<Rightarrow> Inl (Throw (with_slots v1 b, w2))
              | Inr (b, w2) \<Rightarrow> Inr ((with_slots v1 b)\<lparr>size_v := new_size\<rparr>, w2))))"

text \<open>\<^verbatim>\<open>PopBack() noexcept\<close>: \<^verbatim>\<open>end() - 1\<close> lies before the block when the vector is empty.\<close>

definition PopBack :: "'a Vector \<Rightarrow> world \<Rightarrow> ('a Vector \<times> world) error + 'a Vector \<times> world" where
  "PopBack v w =
     (if size_v v = 0 then Inl UB
      else
        (case destroy_n (slots v) (size_v v - 1) 1 w of
           Inl _ \<Rightarrow> Inl UB
         | Inr (b, w1) \<Rightarrow> Inr ((with_slots v b)\<lparr>size_v := size_v v - 1\<rparr>, w1)))"

text \<open>
  \<^verbatim>\<open>EmplaceBack(Args&&... args)\<close>: \<open>x\<close> is the value that \<^verbatim>\<open>T(args...)\<close> constructs. The
  result is the index of the new element.
\<close>

definition EmplaceBack ::
  "'a elem_type \<Rightarrow> 'a \<Rightarrow> 'a Vector \<Rightarrow> world
     \<Rightarrow> ('a Vector \<times> world) error + nat \<times> 'a Vector \<times> world" where
  "EmplaceBack T x v w =
     (if size_v v = Capacity v then
        (let new_size = (if size_v v \<noteq> 0 then size_v v * 2 else 1) in
         case RawMemory_exact new_size w of
           (new_data, w1) \<Rightarrow>
             (case construct_at (cells new_data) (size_v v) x w1 of
                Inl UB \<Rightarrow> Inl UB
              | Inl (Throw (nb, w2)) \<Rightarrow>
                  Inl (Throw (v, RawMemory_destroy (set_cells new_data nb) w2))
              | Inr (nb, w2) \<Rightarrow>
                  (case (if moves_elements T
                         then uninitialized_move_n T (slots v) 0 (size_v v) nb 0 w2
                         else copy_keeping_source (slots v) 0 (size_v v) nb 0 w2) of
                     Inl UB \<Rightarrow> Inl UB
                   | Inl (Throw (old, nb', w3)) \<Rightarrow>
                       Inl (Throw (with_slots v old,
                                   RawMemory_destroy (set_cells new_data nb') w3))
                   | Inr (old, nb', w3) \<Rightarrow>
                       (case destroy_n old 0 (size_v v) w3 of
                          Inl _ \<Rightarrow> Inl UB
                        | Inr (old', w4) \<Rightarrow>
                            (case RawMemory_Swap (data (with_slots v old'))
                                    (set_cells new_data nb') of
                               (d, nd) \<Rightarrow>
                                 Inr (size_v v, v\<lparr>data := d, size_v := size_v v + 1\<rparr>,
                                      RawMemory_destroy nd w4))))))
      else
        (case construct_at (slots v) (size_v v) x w of
           Inl UB \<Rightarrow> Inl UB
         | Inl (Throw (b, w1)) \<Rightarrow> Inl (Throw (with_slots v b, w1))
         | Inr (b, w1) \<Rightarrow> Inr (size_v v, (with_slots v b)\<lparr>size_v := size_v v + 1\<rparr>, w1)))"

text \<open>\<^verbatim>\<open>PushBack(const T& value)\<close> and \<^verbatim>\<open>PushBack(T&& value)\<close>\<close>

definition PushBack ::
  "'a elem_type \<Rightarrow> 'a \<Rightarrow> 'a Vector \<Rightarrow> world \<Rightarrow> ('a Vector \<times> world) error + 'a Vector \<times> world" where
  "PushBack T x v w =
     (case EmplaceBack T x v w of
        Inl e \<Rightarrow> Inl e
      | Inr (_, v', w') \<Rightarrow> Inr (v', w'))"

text \<open>
  \<^verbatim>\<open>Emplace(const_iterator pos, Args&&... args)\<close>: \<open>idx\<close> is \<^verbatim>\<open>pos - begin()\<close> and \<open>x\<close>
  the value that \<^verbatim>\<open>T(args...)\<close> constructs. In the first branch the temporary lives in a
  block of its own, acquired with \<^verbatim>\<open>operator new\<close>; nothing releases it when a constructor
  throws. \<^verbatim>\<open>*(end() - 1)\<close> lies before the block when the vector is empty. Only the copy
  alternative of the second branch has a handler.
\<close>

definition Emplace ::
  "'a elem_type \<Rightarrow> nat \<Rightarrow> 'a \<Rightarrow> 'a Vector \<Rightarrow> world
     \<Rightarrow> ('a Vector \<times> world) error + nat \<times> 'a Vector \<times> world" where
  "Emplace T idx x v w =
     (if size_v v < Capacity v then
        (case ctor (w\<lparr>blocks := blocks w + 1\<rparr>) of
           (False, w1) \<Rightarrow> Inl (Throw (v, w1))
         | (True, w1) \<Rightarrow>
             (if size_v v = 0 then Inl UB
              else if size_v v < length (slots v) then
                (case slots v ! (size_v v - 1) of
                   None \<Rightarrow> Inl UB
                 | Some back \<Rightarrow>
                     (case move_ctor T w1 of
                        (False, w2) \<Rightarrow> Inl (Throw (v, w2))
                      | (True, w2) \<Rightarrow>
                          (case move_backward T
                                  ((slots v)[size_v v - 1 := Some (moved_from T back),
                                             size_v v := Some back])
                                  idx (size_v v - 1) (size_v v) of
                             None \<Rightarrow> Inl UB
                           | Some b \<Rightarrow>
                               (if idx < length b \<and> b ! idx \<noteq> None then
                                  Inr (idx,
                                       (with_slots v (b[idx := Some x]))\<lparr>size_v := size_v v + 1\<rparr>,
                                       w2\<lparr>live := live w2 - 1, blocks := blocks w2 - 1\<rparr>)
                                else Inl UB))))
              else Inl UB))
      else if size_v v = Capacity v then
        (let new_size = (if size_v v \<noteq> 0 then size_v v * 2 else 1) in
         case RawMemory_exact new_size w of
           (new_data, w1) \<Rightarrow>
             (case construct_at (cells new_data) idx x w1 of
                Inl UB \<Rightarrow> Inl UB
              | Inl (Throw (nb, w2)) \<Rightarrow>
                  Inl (Throw (v, RawMemory_destroy (set_cells new_data nb) w2))
              | Inr (nb, w2) \<Rightarrow>
                  (case (if moves_elements T then
                           (case uninitialized_move_n T (slots v) 0 idx nb 0 w2 of
                              Inl e \<Rightarrow> Inl e
                            | Inr (old, nb1, w3) \<Rightarrow>
                                uninitialized_move_n T old idx (size_v v - idx) nb1 (idx + 1) w3)
                         else
                           (case (case copy_keeping_source (slots v) 0 idx nb 0 w2 of
                                    Inl e \<Rightarrow> Inl e
                                  | Inr (old, nb1, w3) \<Rightarrow>
                                      copy_keeping_source old idx (size_v v - idx) nb1 (idx + 1) w3) of
                              Inl UB \<Rightarrow> Inl UB
                            | Inl (Throw (old, nb', w3)) \<Rightarrow>
                                (case destroy_n nb' idx 1 w3 of
                                   Inl _ \<Rightarrow> Inl UB
                                 | Inr (nb'', w4) \<Rightarrow> Inl (Throw (old, nb'', w4)))
                            | Inr s \<Rightarrow> Inr s)) of
                     Inl UB \<Rightarrow> Inl UB
                   | Inl (Throw (old, nb', w3)) \<Rightarrow>
                       Inl (Throw (with_slots v old,
                                   RawMemory_destroy (set_cells new_data nb') w3))
                   | Inr (old, nb', w3) \<Rightarrow>
                       (case destroy_n old 0 (size_v v) w3 of
                          Inl _ \<Rightarrow> Inl UB
                        | Inr (old', w4) \<Rightarrow>
                            (case RawMemory_Swap (data (with_slots v old'))
                                    (set_cells new_data nb') of
                               (d, nd) \<Rightarrow>
                                 Inr (idx, v\<lparr>data := d, size_v := size_v v + 1\<rparr>,
                                      RawMemory_destroy nd w4))))))
      else Inr (idx, v\<lparr>size_v := size_v v + 1\<rparr>, w))"

text \<open>\<^verbatim>\<open>Insert(const_iterator pos, const T& value)\<close> and \<^verbatim>\<open>Insert(const_iterator pos, T&& value)\<close>\<close>

definition Insert ::
  "'a elem_type \<Rightarrow> nat \<Rightarrow> 'a \<Rightarrow> 'a Vector \<Rightarrow> world
     \<Rightarrow> ('a Vector \<times> world) error + nat \<times> 'a Vector \<times> world" where
  "Insert T idx x v w = Emplace T idx x v w"

text \<open>\<^verbatim>\<open>Erase(const_iterator pos)\<close>, with \<open>idx\<close> for \<^verbatim>\<open>pos - begin()\<close>.\<close>

definition Erase ::
  "'a elem_type \<Rightarrow> nat \<Rightarrow> 'a Vector \<Rightarrow> world
     \<Rightarrow> ('a Vector \<times> world) error + nat \<times> 'a Vector \<times> world" where
  "Erase T idx v w =
     (case move_range T (slots v) (idx + 1) (size_v v) idx of
        None \<Rightarrow> Inl UB
      | Some b \<Rightarrow>
          (case PopBack (with_slots v b) w of
             Inl e \<Rightarrow> Inl e
           | Inr (v', w') \<Rightarrow> Inr (idx, v', w')))"

section \<open>The invariant and the contents of a vector\<close>

text \<open>
  The storage pointer is null exactly when the capacity is zero, the block has \<open>capacity\<close>
  slots, \<open>size_v \<le> capacity\<close>, the slots below \<open>size_v\<close> hold objects and the slots from
  \<open>size_v\<close> on hold none.
\<close>

definition valid :: "'a Vector \<Rightarrow> bool" where
  "valid v \<longleftrightarrow>
     (buffer (data v) = None) = (capacity (data v) = 0) \<and>
     length (slots v) = Capacity v \<and> size_v v \<le> Capacity v \<and>
     list_all (\<lambda>c. c \<noteq> None) (take (size_v v) (slots v)) \<and>
     list_all (\<lambda>c. c = None) (drop (size_v v) (slots v))"

text \<open>The elements a vector holds, in order.\<close>

definition elems :: "'a Vector \<Rightarrow> 'a list" where
  "elems v = map the (take (size_v v) (slots v))"

text \<open>The vector of capacity \<open>c\<close> that holds the elements \<open>xs\<close> (for \<open>length xs \<le> c\<close>).\<close>

definition vector_of :: "nat \<Rightarrow> 'a list \<Rightarrow> 'a Vector" where
  "vector_of c xs =
     \<lparr>data = \<lparr>buffer = (if c = 0 then None
                         else Some (map Some xs @ replicate (c - length xs) None)),
               capacity = c\<rparr>,
      size_v = length xs\<rparr>"

text \<open>
  Worlds: no constructor throws; none of the next \<open>n\<close> constructor calls throws; the
  world after \<open>n\<close> constructor calls that returned; the world after \<open>n\<close> move
  constructions that returned.
\<close>

definition never_throws :: "world \<Rightarrow> bool" where
  "never_throws w \<longleftrightarrow> throw_at w = 0"

definition quiet_for :: "nat \<Rightarrow> world \<Rightarrow> bool" where
  "quiet_for n w \<longleftrightarrow> throw_at w \<le> ctor_calls w \<or> ctor_calls w + n < throw_at w"

definition after_ctors :: "nat \<Rightarrow> world \<Rightarrow> world" where
  "after_ctors n w = w\<lparr>ctor_calls := ctor_calls w + n, live := live w + int n\<rparr>"

definition after_moves :: "'a elem_type \<Rightarrow> nat \<Rightarrow> world \<Rightarrow> world" where
  "after_moves T n w =
     (if nothrow_move_constructible T then w\<lparr>live := live w + int n\<rparr> else after_ctors n w)"

text \<open>What the moves of \<^verbatim>\<open>Erase\<close> leave in the last slot: the erased element when nothing
  follows it, the moved-from last element otherwise.\<close>

fun residue :: "'a elem_type \<Rightarrow> 'a \<Rightarrow> 'a list \<Rightarrow> 'a" where
  "residue T e [] = e"
| "residue T e (x # xs) = residue T (moved_from T x) xs"

section \<open>Sequences of calls\<close>

datatype 'a op = Push 'a | Pop

fun apply_ops ::
  "'a elem_type \<Rightarrow> 'a op list \<Rightarrow> 'a Vector \<Rightarrow> world
     \<Rightarrow> ('a Vector \<times> world) error + 'a Vector \<times> world" where
  "apply_ops T [] v w = Inr (v, w)"
| "apply_ops T (Push x # ops) v w =
     (case PushBack T x v w of
        Inl e \<Rightarrow> Inl e
      | Inr (v', w') \<Rightarrow> apply_ops T ops v' w')"
| "apply_ops T (Pop # ops) v w =
     (case PopBack v w of
        Inl e \<Rightarrow> Inl e
      | Inr (v', w') \<Rightarrow> apply_ops T ops v' w')"

text \<open>The same sequence on a plain list; a \<open>Pop\<close> on the empty list is not allowed.\<close>

fun list_ops :: "'a op list \<Rightarrow> 'a list \<Rightarrow> 'a list option" where
  "list_ops [] xs = Some xs"
| "list_ops (Push x # ops) xs = list_ops ops (xs @ [x])"
| "list_ops (Pop # ops) xs = (if xs = [] then None else list_ops ops (butlast xs))"

fun pushes :: "'a op list \<Rightarrow> nat" where
  "pushes [] = 0"
| "pushes (Push x # ops) = Suc (pushes ops)"
| "pushes (Pop # ops) = pushes ops"

fun pops :: "'a op list \<Rightarrow> nat" where
  "pops [] = 0"
| "pops (Push x # ops) = pops ops"
| "pops (Pop # ops) = Suc (pops ops)"

text \<open>The capacities observed after each \<^verbatim>\<open>PushBack\<close> of a run of them.\<close>

fun capacities_pushing :: "'a elem_type \<Rightarrow> 'a list \<Rightarrow> 'a Vector \<Rightarrow> world \<Rightarrow> nat list option" where
  "capacities_pushing T [] v w = Some []"
| "capacities_pushing T (x # xs) v w =
     (case PushBack T x v w of
        Inl _ \<Rightarrow> None
      | Inr (v', w') \<Rightarrow>
          (case capacities_pushing T xs v' w' of
             None \<Rightarrow> None
           | Some cs \<Rightarrow> Some (Capacity v' # cs)))"

section \<open>Element types and worlds of the examples\<close>

text \<open>A copyable type whose move constructor may throw: migration copies.\<close>

definition copying_type :: "nat elem_type" where
  "copying_type =
     \<lparr>nothrow_move_constructible = False, copy_constructible = True, value_init = 0,
      moved_from = (\<lambda>x. x), size_of = 8\<rparr>"

text \<open>A type that is not copyable and whose move constructor may throw: migration moves.\<close>

definition move_only_type :: "nat elem_type" where
  "move_only_type =
     \<lparr>nothrow_move_constructible = False, copy_constructible = False, value_init = 0,
      moved_from = (\<lambda>x. 0), size_of = 8\<rparr>"

text \<open>The world with \<open>l\<close> live objects and \<open>b\<close> blocks whose \<open>k\<close>-th constructor call
  throws (\<open>k = 0\<close>: none does).\<close>

definition world_of :: "nat \<Rightarrow> int \<Rightarrow> int \<Rightarrow> world" where
  "world_of k l b = \<lparr>ctor_calls = 0, throw_at = k, live = l, blocks = b\<rparr>"

section \<open>Facts about worlds\<close>

lemma never_throws_quiet: "never_throws w \<Longrightarrow> quiet_for n w"
  by (simp add: never_throws_def quiet_for_def)

lemma ctor_quiet: "quiet_for (Suc n) w \<Longrightarrow> ctor w = (True, after_ctors 1 w)"
  by (auto simp: ctor_def quiet_for_def after_ctors_def Let_def)

lemma quiet_for_step: "quiet_for (Suc n) w \<Longrightarrow> quiet_for n (after_ctors 1 w)"
  by (auto simp: quiet_for_def after_ctors_def)

lemma after_ctors_add: "after_ctors n (after_ctors m w) = after_ctors (m + n) w"
  by (simp add: after_ctors_def)

lemma after_ctors_0: "after_ctors 0 w = w"
  by (simp add: after_ctors_def)

lemma ctor_throws:
  "throw_at w = Suc (ctor_calls w) \<Longrightarrow> ctor w = (False, w\<lparr>ctor_calls := throw_at w\<rparr>)"
  by (simp add: ctor_def Let_def)

lemma move_ctor_ok:
  "nothrow_move_constructible T \<or> quiet_for (Suc n) w \<Longrightarrow>
   move_ctor T w = (True, after_moves T 1 w)"
  by (auto simp: move_ctor_def after_moves_def ctor_quiet)

lemma after_moves_add: "after_moves T n (after_moves T m w) = after_moves T (m + n) w"
  by (simp add: after_moves_def after_ctors_add)

lemma quiet_for_move_step:
  "nothrow_move_constructible T \<or> quiet_for (Suc n) w \<Longrightarrow>
   nothrow_move_constructible T \<or> quiet_for n (after_moves T 1 w)"
  by (auto simp: after_moves_def quiet_for_def after_ctors_def)

section \<open>Facts about the algorithms on blocks\<close>

lemma construct_at_ok:
  "quiet_for (Suc n) w \<Longrightarrow>
   construct_at (q @ y # t) (length q) x w = Inr (q @ Some x # t, after_ctors 1 w)"
  by (simp add: construct_at_def ctor_quiet)

lemma construct_at_throws:
  "throw_at w = Suc (ctor_calls w) \<Longrightarrow>
   construct_at (q @ y # t) (length q) x w = Inl (Throw (q @ y # t, w\<lparr>ctor_calls := throw_at w\<rparr>))"
  by (simp add: construct_at_def ctor_throws)

lemma destroy_n_run:
  "destroy_n (p @ map Some xs @ s) (length p) (length xs) w =
     Inr (p @ replicate (length xs) None @ s, w\<lparr>live := live w - int (length xs)\<rparr>)"
proof (induction xs arbitrary: p w)
  case Nil
  then show ?case by simp
next
  case (Cons x xs)
  have "destroy_n ((p @ [None]) @ map Some xs @ s) (length (p @ [None])) (length xs)
          (w\<lparr>live := live w - 1\<rparr>) =
        Inr ((p @ [None]) @ replicate (length xs) None @ s,
             w\<lparr>live := live w - 1, live := live (w\<lparr>live := live w - 1\<rparr>) - int (length xs)\<rparr>)"
    using Cons.IH [of "p @ [None]" "w\<lparr>live := live w - 1\<rparr>"] by simp
  then show ?case by (simp add: nth_append)
qed

lemma uninit_copy_loop_ok:
  "quiet_for (length xs) w \<Longrightarrow> length r = length xs \<Longrightarrow>
   uninit_copy_loop (p @ map Some xs @ s) (length p) (length xs) (q @ r @ t) (length q) w =
     Inr (q @ map Some xs @ t, after_ctors (length xs) w)"
proof (induction xs arbitrary: p q r w)
  case Nil
  then show ?case by (simp add: after_ctors_0)
next
  case (Cons x xs)
  then obtain y r' where r: "r = y # r'" and len: "length r' = length xs"
    by (cases r) auto
  have q: "quiet_for (Suc (length xs)) w" using Cons.prems by simp
  have "uninit_copy_loop ((p @ [Some x]) @ map Some xs @ s) (length (p @ [Some x])) (length xs)
          ((q @ [Some x]) @ r' @ t) (length (q @ [Some x])) (after_ctors 1 w) =
        Inr ((q @ [Some x]) @ map Some xs @ t, after_ctors (length xs) (after_ctors 1 w))"
    by (rule Cons.IH [OF quiet_for_step [OF q] len])
  then show ?case
    by (simp add: r nth_append construct_at_ok [OF q] after_ctors_add)
qed

lemma uninit_copy_loop_throw:
  "ctor_calls w < throw_at w \<Longrightarrow> throw_at w \<le> ctor_calls w + length xs \<Longrightarrow>
   length r = length xs \<Longrightarrow>
   uninit_copy_loop (p @ map Some xs @ s) (length p) (length xs) (q @ r @ t) (length q) w =
     Inl (Throw (q @ map Some (take (throw_at w - Suc (ctor_calls w)) xs)
                   @ drop (throw_at w - Suc (ctor_calls w)) r @ t,
                 length q + (throw_at w - Suc (ctor_calls w)),
                 (after_ctors (throw_at w - Suc (ctor_calls w)) w)\<lparr>ctor_calls := throw_at w\<rparr>))"
proof (induction xs arbitrary: p q r w)
  case Nil
  then show ?case by simp
next
  case (Cons x xs)
  then obtain y r' where r: "r = y # r'" and len: "length r' = length xs"
    by (cases r) auto
  show ?case
  proof (cases "throw_at w = Suc (ctor_calls w)")
    case True
    then show ?thesis
      by (simp add: r nth_append construct_at_throws after_ctors_0)
  next
    case False
    then have q: "quiet_for (Suc 0) w" using Cons.prems by (simp add: quiet_for_def)
    let ?w = "after_ctors 1 w"
    have a: "ctor_calls ?w < throw_at ?w" "throw_at ?w \<le> ctor_calls ?w + length xs"
      using False Cons.prems by (simp_all add: after_ctors_def)
    have k: "throw_at w - Suc (ctor_calls w) = Suc (throw_at ?w - Suc (ctor_calls ?w))"
      using False Cons.prems by (simp add: after_ctors_def)
    have "uninit_copy_loop ((p @ [Some x]) @ map Some xs @ s) (length (p @ [Some x])) (length xs)
            ((q @ [Some x]) @ r' @ t) (length (q @ [Some x])) ?w =
          Inl (Throw ((q @ [Some x]) @ map Some (take (throw_at ?w - Suc (ctor_calls ?w)) xs)
                   @ drop (throw_at ?w - Suc (ctor_calls ?w)) r' @ t,
                 length (q @ [Some x]) + (throw_at ?w - Suc (ctor_calls ?w)),
                 (after_ctors (throw_at ?w - Suc (ctor_calls ?w)) ?w)\<lparr>ctor_calls := throw_at ?w\<rparr>))"
      by (rule Cons.IH [OF a len])
    then show ?thesis
      by (simp add: r nth_append construct_at_ok [OF q] k after_ctors_add)
        (simp add: after_ctors_def)
  qed
qed

lemma uninitialized_copy_n_ok:
  "quiet_for (length xs) w \<Longrightarrow> length r = length xs \<Longrightarrow>
   uninitialized_copy_n (p @ map Some xs @ s) (length p) (length xs) (q @ r @ t) (length q) w =
     Inr (q @ map Some xs @ t, after_ctors (length xs) w)"
  by (simp add: uninitialized_copy_n_def uninit_copy_loop_ok)

lemma uninitialized_copy_n_throw:
  assumes "ctor_calls w < throw_at w" and "throw_at w \<le> ctor_calls w + length xs"
  shows "uninitialized_copy_n (p @ map Some xs @ s) (length p) (length xs)
           (q @ replicate (length xs) None @ t) (length q) w =
         Inl (Throw (q @ replicate (length xs) None @ t, w\<lparr>ctor_calls := throw_at w\<rparr>))"
proof -
  define k where "k = throw_at w - Suc (ctor_calls w)"
  have k: "k < length xs" using assms by (simp add: k_def)
  have len: "length (take k xs) = k" using k by simp
  have d: "destroy_n (q @ map Some (take k xs) @ drop k (replicate (length xs) None) @ t)
             (length q) (length (take k xs)) ((after_ctors k w)\<lparr>ctor_calls := throw_at w\<rparr>) =
           Inr (q @ replicate (length (take k xs)) None @ drop k (replicate (length xs) None) @ t,
                ((after_ctors k w)\<lparr>ctor_calls := throw_at w\<rparr>)
                  \<lparr>live := live ((after_ctors k w)\<lparr>ctor_calls := throw_at w\<rparr>) - int (length (take k xs))\<rparr>)"
    by (rule destroy_n_run)
  have r: "replicate k None @ replicate (length xs - k) (None :: 'a option) = replicate (length xs) None"
    using k by (simp add: replicate_add [symmetric])
  have "uninit_copy_loop (p @ map Some xs @ s) (length p) (length xs)
           (q @ replicate (length xs) None @ t) (length q) w =
        Inl (Throw (q @ map Some (take k xs) @ drop k (replicate (length xs) None) @ t,
                 length q + k, (after_ctors k w)\<lparr>ctor_calls := throw_at w\<rparr>))"
    unfolding k_def by (rule uninit_copy_loop_throw [OF assms]) simp
  then show ?thesis
    using d k r unfolding uninitialized_copy_n_def
    by (simp add: len after_ctors_def min_absorb2 flip: append_assoc)
qed

lemma copy_keeping_source_ok:
  "quiet_for (length xs) w \<Longrightarrow> length r = length xs \<Longrightarrow>
   copy_keeping_source (p @ map Some xs @ s) (length p) (length xs) (q @ r @ t) (length q) w =
     Inr (p @ map Some xs @ s, q @ map Some xs @ t, after_ctors (length xs) w)"
  by (simp add: copy_keeping_source_def uninitialized_copy_n_ok)

lemma copy_keeping_source_throw:
  "ctor_calls w < throw_at w \<Longrightarrow> throw_at w \<le> ctor_calls w + length xs \<Longrightarrow>
   copy_keeping_source (p @ map Some xs @ s) (length p) (length xs)
     (q @ replicate (length xs) None @ t) (length q) w =
   Inl (Throw (p @ map Some xs @ s, q @ replicate (length xs) None @ t,
               w\<lparr>ctor_calls := throw_at w\<rparr>))"
  by (simp add: copy_keeping_source_def uninitialized_copy_n_throw)

lemma uninit_move_loop_ok:
  "nothrow_move_constructible T \<or> quiet_for (length xs) w \<Longrightarrow> length r = length xs \<Longrightarrow>
   uninit_move_loop T (p @ map Some xs @ s) (length p) (length xs) (q @ r @ t) (length q) w =
     Inr (p @ map Some (map (moved_from T) xs) @ s, q @ map Some xs @ t,
          after_moves T (length xs) w)"
proof (induction xs arbitrary: p q r w)
  case Nil
  then show ?case by (simp add: after_moves_def after_ctors_0)
next
  case (Cons x xs)
  then obtain y r' where r: "r = y # r'" and len: "length r' = length xs"
    by (cases r) auto
  have q: "nothrow_move_constructible T \<or> quiet_for (Suc (length xs)) w"
    using Cons.prems by simp
  have "uninit_move_loop T ((p @ [Some (moved_from T x)]) @ map Some xs @ s)
          (length (p @ [Some (moved_from T x)])) (length xs)
          ((q @ [Some x]) @ r' @ t) (length (q @ [Some x])) (after_moves T 1 w) =
        Inr ((p @ [Some (moved_from T x)]) @ map Some (map (moved_from T) xs) @ s,
             (q @ [Some x]) @ map Some xs @ t, after_moves T (length xs) (after_moves T 1 w))"
    by (rule Cons.IH [OF quiet_for_move_step [OF q] len])
  then show ?case
    by (simp add: r nth_append move_ctor_ok [OF q] after_moves_add)
qed

lemma uninitialized_move_n_ok:
  "nothrow_move_constructible T \<or> quiet_for (length xs) w \<Longrightarrow> length r = length xs \<Longrightarrow>
   uninitialized_move_n T (p @ map Some xs @ s) (length p) (length xs) (q @ r @ t) (length q) w =
     Inr (p @ map Some (map (moved_from T) xs) @ s, q @ map Some xs @ t,
          after_moves T (length xs) w)"
  by (simp add: uninitialized_move_n_def uninit_move_loop_ok)

lemma uninit_value_loop_ok:
  "quiet_for n w \<Longrightarrow> length r = n \<Longrightarrow>
   uninit_value_loop T (q @ r @ t) (length q) n w =
     Inr (q @ replicate n (Some (value_init T)) @ t, after_ctors n w)"
proof (induction n arbitrary: q r w)
  case 0
  then show ?case by (simp add: after_ctors_0)
next
  case (Suc n)
  then obtain y r' where r: "r = y # r'" and len: "length r' = n"
    by (cases r) auto
  have "uninit_value_loop T ((q @ [Some (value_init T)]) @ r' @ t)
          (length (q @ [Some (value_init T)])) n (after_ctors 1 w) =
        Inr ((q @ [Some (value_init T)]) @ replicate n (Some (value_init T)) @ t,
             after_ctors n (after_ctors 1 w))"
    by (rule Suc.IH [OF quiet_for_step [OF Suc.prems(1)] len])
  then show ?case
    by (simp add: r construct_at_ok [OF Suc.prems(1)] after_ctors_add)
qed

lemma uninit_value_loop_throw:
  "ctor_calls w < throw_at w \<Longrightarrow> throw_at w \<le> ctor_calls w + n \<Longrightarrow> length r = n \<Longrightarrow>
   uninit_value_loop T (q @ r @ t) (length q) n w =
     Inl (Throw (q @ map Some (replicate (throw_at w - Suc (ctor_calls w)) (value_init T))
                   @ drop (throw_at w - Suc (ctor_calls w)) r @ t,
                 length q + (throw_at w - Suc (ctor_calls w)),
                 (after_ctors (throw_at w - Suc (ctor_calls w)) w)\<lparr>ctor_calls := throw_at w\<rparr>))"
proof (induction n arbitrary: q r w)
  case 0
  then show ?case by simp
next
  case (Suc n)
  then obtain y r' where r: "r = y # r'" and len: "length r' = n"
    by (cases r) auto
  show ?case
  proof (cases "throw_at w = Suc (ctor_calls w)")
    case True
    then show ?thesis
      by (simp add: r construct_at_throws after_ctors_0)
  next
    case False
    then have q: "quiet_for (Suc 0) w" using Suc.prems by (simp add: quiet_for_def)
    let ?w = "after_ctors 1 w"
    have a: "ctor_calls ?w < throw_at ?w" "throw_at ?w \<le> ctor_calls ?w + n"
      using False Suc.prems by (simp_all add: after_ctors_def)
    have k: "throw_at w - Suc (ctor_calls w) = Suc (throw_at ?w - Suc (ctor_calls ?w))"
      using False Suc.prems by (simp add: after_ctors_def)
    have "uninit_value_loop T ((q @ [Some (value_init T)]) @ r' @ t)
            (length (q @ [Some (value_init T)])) n ?w =
          Inl (Throw ((q @ [Some (value_init T)])
                   @ map Some (replicate (throw_at ?w - Suc (ctor_calls ?w)) (value_init T))
                   @ drop (throw_at ?w - Suc (ctor_calls ?w)) r' @ t,
                 length (q @ [Some (value_init T)]) + (throw_at ?w - Suc (ctor_calls ?w)),
                 (after_ctors (throw_at ?w - Suc (ctor_calls ?w)) ?w)\<lparr>ctor_calls := throw_at ?w\<rparr>))"
      by (rule Suc.IH [OF a len])
    then show ?thesis
      by (simp add: r construct_at_ok [OF q] k after_ctors_add)
        (simp add: after_ctors_def)
  qed
qed

lemma uninitialized_value_construct_n_ok:
  "quiet_for n w \<Longrightarrow> length r = n \<Longrightarrow>
   uninitialized_value_construct_n T (q @ r @ t) (length q) n w =
     Inr (q @ replicate n (Some (value_init T)) @ t, after_ctors n w)"
  by (simp add: uninitialized_value_construct_n_def uninit_value_loop_ok)

lemma uninitialized_value_construct_n_throw:
  assumes "ctor_calls w < throw_at w" and "throw_at w \<le> ctor_calls w + n"
  shows "uninitialized_value_construct_n T (q @ replicate n None @ t) (length q) n w =
         Inl (Throw (q @ replicate n None @ t, w\<lparr>ctor_calls := throw_at w\<rparr>))"
proof -
  define k where "k = throw_at w - Suc (ctor_calls w)"
  have k: "k < n" using assms by (simp add: k_def)
  let ?vs = "replicate k (value_init T)"
  have len: "length ?vs = k" by simp
  have d: "destroy_n (q @ map Some ?vs @ drop k (replicate n None) @ t)
             (length q) (length ?vs) ((after_ctors k w)\<lparr>ctor_calls := throw_at w\<rparr>) =
           Inr (q @ replicate (length ?vs) None @ drop k (replicate n None) @ t,
                ((after_ctors k w)\<lparr>ctor_calls := throw_at w\<rparr>)
                  \<lparr>live := live ((after_ctors k w)\<lparr>ctor_calls := throw_at w\<rparr>) - int (length ?vs)\<rparr>)"
    by (rule destroy_n_run)
  have r: "replicate k None @ replicate (n - k) (None :: 'a option) = replicate n None"
    using k by (simp add: replicate_add [symmetric])
  have "uninit_value_loop T (q @ replicate n None @ t) (length q) n w =
        Inl (Throw (q @ map Some ?vs @ drop k (replicate n None) @ t,
                 length q + k, (after_ctors k w)\<lparr>ctor_calls := throw_at w\<rparr>))"
    unfolding k_def by (rule uninit_value_loop_throw [OF assms]) simp
  then show ?thesis
    using d k r unfolding uninitialized_value_construct_n_def
    by (simp add: after_ctors_def flip: append_assoc)
qed

section \<open>Facts about the invariant\<close>

lemma size_v_vector_of [simp]: "size_v (vector_of c xs) = length xs"
  by (simp add: vector_of_def)

lemma Capacity_vector_of [simp]: "Capacity (vector_of c xs) = c"
  by (simp add: vector_of_def Capacity_def)

lemma capacity_data_vector_of [simp]: "capacity (data (vector_of c xs)) = c"
  by (simp add: vector_of_def)

lemma Size_vector_of [simp]: "Size (vector_of c xs) = length xs"
  by (simp add: Size_def)

lemma slots_vector_of:
  "length xs \<le> c \<Longrightarrow> slots (vector_of c xs) = map Some xs @ replicate (c - length xs) None"
  by (auto simp: slots_def cells_def vector_of_def)

lemma buffer_vector_of: "(buffer (data (vector_of c xs)) = None) = (c = 0)"
  by (simp add: vector_of_def)

lemma with_slots_vector_of:
  "length ys \<le> c \<Longrightarrow>
   with_slots (vector_of c xs) (map Some ys @ replicate (c - length ys) None) = 
     (vector_of c ys)\<lparr>size_v := length xs\<rparr>"
  by (simp add: with_slots_def set_cells_def vector_of_def)

lemma valid_vector_of: "length xs \<le> c \<Longrightarrow> valid (vector_of c xs)"
  by (simp add: valid_def slots_vector_of buffer_vector_of list_all_iff)

lemma elems_vector_of: "length xs \<le> c \<Longrightarrow> elems (vector_of c xs) = xs"
  by (simp add: elems_def slots_vector_of comp_def)

lemma subscript_vector_of:
  "length xs \<le> c \<Longrightarrow>
   subscript (vector_of c xs) i = (if i < length xs then Some (xs ! i) else None)"
  by (simp add: subscript_def slots_vector_of nth_append)

lemma all_Some_map: "list_all (\<lambda>c. c \<noteq> None) ys \<Longrightarrow> map Some (map the ys) = ys"
  by (induction ys) auto

lemma all_None_replicate: "list_all (\<lambda>c. c = None) ys \<Longrightarrow> ys = replicate (length ys) None"
  by (induction ys) auto

lemma valid_length_elems: "valid v \<Longrightarrow> length (elems v) = size_v v"
  by (simp add: valid_def elems_def)

lemma valid_size_le: "valid v \<Longrightarrow> size_v v \<le> Capacity v"
  by (simp add: valid_def)

lemma valid_canonical:
  assumes "valid v"
  shows "v = vector_of (Capacity v) (elems v)"
proof -
  have a: "map Some (elems v) = take (size_v v) (slots v)"
    using assms all_Some_map [of "take (size_v v) (slots v)"] by (simp add: valid_def elems_def)
  have "drop (size_v v) (slots v) = replicate (length (drop (size_v v) (slots v))) None"
    using assms by (intro all_None_replicate) (simp add: valid_def)
  then have b: "drop (size_v v) (slots v) = replicate (Capacity v - size_v v) None"
    using assms by (simp add: valid_def)
  have "slots v = take (size_v v) (slots v) @ drop (size_v v) (slots v)" by simp
  then have s: "slots v = map Some (elems v) @ replicate (Capacity v - size_v v) None"
    using a b by simp
  have n: "(buffer (data v) = None) = (Capacity v = 0)"
    using assms by (simp add: valid_def Capacity_def)
  have "data v = data (vector_of (Capacity v) (elems v))"
    using s n assms
    by (cases "buffer (data v)")
      (auto simp: vector_of_def slots_def cells_def Capacity_def valid_length_elems)
  then show ?thesis
    using assms by (simp add: vector_of_def valid_length_elems)
qed

section \<open>Moving from a vector\<close>

lemma Vector_move_source: "snd (Vector_move a) = a\<lparr>data := RawMemory_default, size_v := 0\<rparr>"
  by (simp add: Vector_move_def RawMemory_move_def RawMemory_Swap_def RawMemory_default_def)

lemma Vector_move_target: "fst (Vector_move a) = a"
  by (simp add: Vector_move_def RawMemory_move_def RawMemory_Swap_def RawMemory_default_def)

lemma operator_assign_move_source:
  "this \<noteq> rhs \<Longrightarrow>
   operator_assign_move this rhs st rhs = (st rhs)\<lparr>data := RawMemory_default, size_v := 0\<rparr>"
  by (simp add: operator_assign_move_def move_assign_def RawMemory_move_assign_def
      RawMemory_default_def)

lemma operator_assign_move_target:
  "this \<noteq> rhs \<Longrightarrow> operator_assign_move this rhs st this = st rhs"
  by (simp add: operator_assign_move_def move_assign_def RawMemory_move_assign_def)

lemma PushBack_moved_from:
  assumes "never_throws w"
  shows "PushBack T x (a\<lparr>data := RawMemory_default, size_v := 0\<rparr>) w =
     Inr (a\<lparr>data := \<lparr>buffer = Some [Some x], capacity = 1\<rparr>, size_v := 1\<rparr>,
          w\<lparr>ctor_calls := ctor_calls w + 1, live := live w + 1, blocks := blocks w + 1\<rparr>)"
  using assms
  by (simp add: PushBack_def EmplaceBack_def Capacity_def RawMemory_default_def RawMemory_exact_def
      Allocate_exact_def construct_at_def cells_def set_cells_def ctor_def never_throws_def
      uninitialized_move_n_def copy_keeping_source_def uninitialized_copy_n_def slots_def
      with_slots_def RawMemory_Swap_def RawMemory_destroy_def Deallocate_def Let_def)

text \<open>
  C10. A vector that has been moved from, by the move constructor or by move assignment into
  another vector, has capacity 0 and a null storage pointer (and size 0). A \<^verbatim>\<open>PushBack\<close>
  on it then acquires a new block: the capacity becomes 1.
\<close>

theorem moved_from_vector_keeps_no_storage:
  assumes "this \<noteq> rhs" and "never_throws w"
  shows "Size (snd (Vector_move a)) = 0 \<and> Capacity (snd (Vector_move a)) = 0 \<and>
         buffer (data (snd (Vector_move a))) = None \<and>
         Size (operator_assign_move this rhs st rhs) = 0 \<and>
         Capacity (operator_assign_move this rhs st rhs) = 0 \<and>
         buffer (data (operator_assign_move this rhs st rhs)) = None \<and>
         (\<exists>v' w'. PushBack T x (snd (Vector_move a)) w = Inr (v', w') \<and>
                  Capacity v' = 1 \<and> blocks w' = blocks w + 1) \<and>
         (\<exists>v' w'. PushBack T x (operator_assign_move this rhs st rhs) w = Inr (v', w') \<and>
                  Capacity v' = 1 \<and> blocks w' = blocks w + 1)"
proof -
  have src: "Size (b\<lparr>data := RawMemory_default, size_v := 0\<rparr>) = 0 \<and>
             Capacity (b\<lparr>data := RawMemory_default, size_v := 0\<rparr>) = 0 \<and>
             buffer (data (b\<lparr>data := RawMemory_default, size_v := 0\<rparr>)) = None"
    for b :: "'a Vector"
    by (simp add: Size_def Capacity_def RawMemory_default_def)
  have push: "\<exists>v' w'. PushBack T x (b\<lparr>data := RawMemory_default, size_v := 0\<rparr>) w = Inr (v', w') \<and>
                Capacity v' = 1 \<and> blocks w' = blocks w + 1"
    for b :: "'a Vector"
    using assms(2) by (simp add: PushBack_moved_from Capacity_def)
  have m: "operator_assign_move this rhs st rhs = (st rhs)\<lparr>data := RawMemory_default, size_v := 0\<rparr>"
    by (rule operator_assign_move_source [OF assms(1)])
  show ?thesis
    unfolding Vector_move_source m
    using src [of a] src [of "st rhs"] push [of a] push [of "st rhs"] by blast
qed

theorem moved_from_vector_keeps_no_storage_witness:
  "(0::nat) \<noteq> 1 \<and> never_throws (world_of 0 2 1) \<and>
   Capacity (snd (Vector_move (vector_of 2 [1::nat, 2]))) = 0 \<and>
   buffer (data (snd (Vector_move (vector_of 2 [1::nat, 2])))) = None \<and>
   Capacity (operator_assign_move 0 1 ((\<lambda>_. Vector_default)(1 := vector_of 2 [1::nat, 2])) 1) = 0 \<and>
   (\<exists>v' w'. PushBack copying_type 5 (snd (Vector_move (vector_of 2 [1::nat, 2]))) (world_of 0 2 1)
              = Inr (v', w') \<and> Capacity v' = 1 \<and> blocks w' = 2)"
  using moved_from_vector_keeps_no_storage [of 0 1 "world_of 0 2 1" "vector_of 2 [1::nat, 2]"
      "(\<lambda>_. Vector_default)(1 := vector_of 2 [1::nat, 2])" copying_type 5]
  by (simp add: never_throws_def world_of_def)

section \<open>The algorithms at the front of a block\<close>

lemma destroy_n_front:
  "length ys = n \<Longrightarrow>
   destroy_n (map Some ys @ s) 0 n w = Inr (replicate n None @ s, w\<lparr>live := live w - int n\<rparr>)"
  using destroy_n_run [of "[]" ys s w] by simp

lemma copy_keeping_source_front:
  "quiet_for (length xs) w \<Longrightarrow>
   copy_keeping_source (map Some xs @ s) 0 (length xs) (replicate (length xs) None @ t) 0 w =
     Inr (map Some xs @ s, map Some xs @ t, after_ctors (length xs) w)"
  using copy_keeping_source_ok [of xs w "replicate (length xs) None" "[]" s "[]" t] by simp

lemma copy_keeping_source_front_throw:
  "ctor_calls w < throw_at w \<Longrightarrow> throw_at w \<le> ctor_calls w + length xs \<Longrightarrow>
   copy_keeping_source (map Some xs @ s) 0 (length xs) (replicate (length xs) None @ t) 0 w =
     Inl (Throw (map Some xs @ s, replicate (length xs) None @ t, w\<lparr>ctor_calls := throw_at w\<rparr>))"
  using copy_keeping_source_throw [of w xs "[]" s "[]" t] by simp

lemma uninitialized_move_n_front:
  "nothrow_move_constructible T \<or> quiet_for (length xs) w \<Longrightarrow>
   uninitialized_move_n T (map Some xs @ s) 0 (length xs) (replicate (length xs) None @ t) 0 w =
     Inr (map Some (map (moved_from T) xs) @ s, map Some xs @ t, after_moves T (length xs) w)"
  using uninitialized_move_n_ok [of T xs w "replicate (length xs) None" "[]" s "[]" t] by simp

lemma replicate_split:
  "k \<le> n \<Longrightarrow> replicate n x = replicate k x @ replicate (n - k) x"
  by (simp add: replicate_add [symmetric])

lemma set_cells_vector_of:
  "set_cells (data (vector_of c xs)) b = \<lparr>buffer = (if c = 0 then None else Some b), capacity = c\<rparr>"
  by (simp add: set_cells_def vector_of_def)

section \<open>Reserve\<close>

lemma RawMemory_new_fits: "fits T n \<Longrightarrow> RawMemory_new T n w = RawMemory_exact n w"
  by (simp add: fits_def RawMemory_new_def RawMemory_exact_def Allocate_def Allocate_exact_def)

lemma Reserve_noop: "n \<le> Capacity v \<Longrightarrow> Reserve T n v w = Inr (v, w)"
  by (simp add: Reserve_def)

lemma quiet_for_blocks [simp]: "quiet_for n (w\<lparr>blocks := b\<rparr>) = quiet_for n w"
  by (simp add: quiet_for_def)

lemma migrate:
  assumes "nothrow_move_constructible T \<or> quiet_for (length xs) w"
  obtains old w2 where
    "(if moves_elements T
      then uninitialized_move_n T (map Some xs @ s) 0 (length xs) (replicate (length xs) None @ t) 0 w
      else copy_keeping_source (map Some xs @ s) 0 (length xs) (replicate (length xs) None @ t) 0 w)
     = Inr (old, map Some xs @ t, w2)"
    and "destroy_n old 0 (length xs) w2 =
           Inr (replicate (length xs) None @ s, w2\<lparr>live := live w2 - int (length xs)\<rparr>)"
    and "throw_at w2 = throw_at w" and "live w2 = live w + int (length xs)"
    and "blocks w2 = blocks w"
proof (cases "moves_elements T")
  case True
  show ?thesis
  proof (rule that)
    show "(if moves_elements T
      then uninitialized_move_n T (map Some xs @ s) 0 (length xs) (replicate (length xs) None @ t) 0 w
      else copy_keeping_source (map Some xs @ s) 0 (length xs) (replicate (length xs) None @ t) 0 w)
     = Inr (map Some (map (moved_from T) xs) @ s, map Some xs @ t, after_moves T (length xs) w)"
      using True by (simp only: if_True uninitialized_move_n_front [OF assms])
    show "destroy_n (map Some (map (moved_from T) xs) @ s) 0 (length xs)
            (after_moves T (length xs) w) =
          Inr (replicate (length xs) None @ s,
               (after_moves T (length xs) w)\<lparr>live := live (after_moves T (length xs) w) - int (length xs)\<rparr>)"
      by (rule destroy_n_front) simp
  qed (simp_all add: after_moves_def after_ctors_def)
next
  case False
  then have q: "quiet_for (length xs) w" using assms by (simp add: moves_elements_def)
  show ?thesis
  proof (rule that)
    show "(if moves_elements T
      then uninitialized_move_n T (map Some xs @ s) 0 (length xs) (replicate (length xs) None @ t) 0 w
      else copy_keeping_source (map Some xs @ s) 0 (length xs) (replicate (length xs) None @ t) 0 w)
     = Inr (map Some xs @ s, map Some xs @ t, after_ctors (length xs) w)"
      using False by (simp only: if_False copy_keeping_source_front [OF q])
    show "destroy_n (map Some xs @ s) 0 (length xs) (after_ctors (length xs) w) =
          Inr (replicate (length xs) None @ s,
               (after_ctors (length xs) w)\<lparr>live := live (after_ctors (length xs) w) - int (length xs)\<rparr>)"
      by (rule destroy_n_front) simp
  qed (simp_all add: after_ctors_def)
qed

lemma Reserve_grow:
  assumes len: "length xs \<le> c" and grow: "c < n" and fit: "fits T n"
    and quiet: "nothrow_move_constructible T \<or> quiet_for (length xs) w"
  shows "\<exists>w'. Reserve T n (vector_of c xs) w = Inr (vector_of n xs, w') \<and>
              throw_at w' = throw_at w \<and> live w' = live w \<and>
              blocks w' = blocks w + (if c = 0 then 1 else 0)"
proof -
  let ?k = "length xs"
  let ?w1 = "w\<lparr>blocks := blocks w + 1\<rparr>"
  have fresh: "replicate n (None :: 'a option) = replicate ?k None @ replicate (n - ?k) None"
    using len grow by (intro replicate_split) simp
  have new: "RawMemory_new T n w =
      (\<lparr>buffer = Some (replicate ?k (None :: 'a option) @ replicate (n - ?k) None),
        capacity = n\<rparr>, ?w1)"
    using grow fresh
    by (simp add: RawMemory_new_fits [OF fit] RawMemory_exact_def Allocate_exact_def)
  have ng: "(n \<le> c) = False" using grow by simp
  have q1: "nothrow_move_constructible T \<or> quiet_for ?k ?w1" using quiet by simp
  obtain old w2 where
    mig: "(if moves_elements T
      then uninitialized_move_n T (map Some xs @ replicate (c - ?k) None) 0 ?k
             (replicate ?k None @ replicate (n - ?k) None) 0 ?w1
      else copy_keeping_source (map Some xs @ replicate (c - ?k) None) 0 ?k
             (replicate ?k None @ replicate (n - ?k) None) 0 ?w1)
     = Inr (old, map Some xs @ replicate (n - ?k) None, w2)"
    and des: "destroy_n old 0 ?k w2 =
           Inr (replicate ?k None @ replicate (c - ?k) None, w2\<lparr>live := live w2 - int ?k\<rparr>)"
    and w2: "throw_at w2 = throw_at ?w1" "live w2 = live ?w1 + int ?k" "blocks w2 = blocks ?w1"
    by (rule migrate [OF q1])
  show ?thesis
    apply (simp only: Reserve_def Capacity_vector_of size_v_vector_of slots_vector_of [OF len]
        new ng if_False prod.case cells_def RawMemory.simps option.case mig sum.case des)
    apply (simp add: with_slots_def set_cells_vector_of set_cells_def RawMemory_Swap_def
        RawMemory_destroy_def Deallocate_def)
    using w2 grow apply (simp add: vector_of_def)
    done
qed

lemma Reserve_throw:
  assumes len: "length xs \<le> c" and grow: "c < n" and fit: "fits T n"
    and copy: "\<not> moves_elements T"
    and t1: "ctor_calls w < throw_at w" and t2: "throw_at w \<le> ctor_calls w + length xs"
  shows "Reserve T n (vector_of c xs) w = Inl (Throw (vector_of c xs, w\<lparr>ctor_calls := throw_at w\<rparr>))"
proof -
  let ?k = "length xs"
  let ?w1 = "w\<lparr>blocks := blocks w + 1\<rparr>"
  have fresh: "replicate n (None :: 'a option) = replicate ?k None @ replicate (n - ?k) None"
    using len grow by (intro replicate_split) simp
  have new: "RawMemory_new T n w =
      (\<lparr>buffer = Some (replicate ?k (None :: 'a option) @ replicate (n - ?k) None),
        capacity = n\<rparr>, ?w1)"
    using grow fresh
    by (simp add: RawMemory_new_fits [OF fit] RawMemory_exact_def Allocate_exact_def)
  have ng: "(n \<le> c) = False" using grow by simp
  have a: "ctor_calls ?w1 < throw_at ?w1" "throw_at ?w1 \<le> ctor_calls ?w1 + ?k"
    using t1 t2 by simp_all
  have c0: "0 < c" using len t1 t2 by (cases xs) auto
  have mig: "(if moves_elements T
      then uninitialized_move_n T (map Some xs @ replicate (c - ?k) None) 0 ?k
             (replicate ?k None @ replicate (n - ?k) None) 0 ?w1
      else copy_keeping_source (map Some xs @ replicate (c - ?k) None) 0 ?k
             (replicate ?k None @ replicate (n - ?k) None) 0 ?w1)
     = Inl (Throw (map Some xs @ replicate (c - ?k) None,
                   replicate ?k None @ replicate (n - ?k) None, ?w1\<lparr>ctor_calls := throw_at ?w1\<rparr>))"
    using copy by (simp only: if_False copy_keeping_source_front_throw [OF a])
  show ?thesis
    apply (simp only: Reserve_def Capacity_vector_of size_v_vector_of slots_vector_of [OF len]
        new ng if_False prod.case cells_def RawMemory.simps option.case mig sum.case error.case)
    apply (simp add: with_slots_def set_cells_vector_of set_cells_def
        RawMemory_destroy_def Deallocate_def)
    using c0 len apply (simp add: vector_of_def)
    done
qed

section \<open>PushBack and PopBack\<close>

lemma construct_at_index:
  "length q = i \<Longrightarrow> quiet_for (Suc n) w \<Longrightarrow>
   construct_at (q @ y # t) i x w = Inr (q @ Some x # t, after_ctors 1 w)"
  using construct_at_ok [of n w q y t x] by simp

lemma replicate_tail: "k < c \<Longrightarrow> replicate (c - k) x = x # replicate (c - Suc k) x"
  by (cases "c - k") (auto simp: Suc_diff_Suc)

lemma EmplaceBack_spare:
  assumes len: "length xs < c" and quiet: "quiet_for (Suc n) w"
  shows "EmplaceBack T x (vector_of c xs) w =
           Inr (length xs, vector_of c (xs @ [x]), after_ctors 1 w)"
proof -
  let ?k = "length xs"
  have ne: "(?k = c) = False" using len by simp
  have le: "?k \<le> c" using len by simp
  have s: "slots (vector_of c xs) = map Some xs @ None # replicate (c - Suc ?k) None"
    using len by (simp add: slots_vector_of replicate_tail)
  have con: "construct_at (map Some xs @ None # replicate (c - Suc ?k) None) ?k x w =
      Inr (map Some xs @ Some x # replicate (c - Suc ?k) None, after_ctors 1 w)"
    by (rule construct_at_index [OF _ quiet]) simp
  show ?thesis
    apply (simp only: EmplaceBack_def Capacity_vector_of size_v_vector_of ne if_False s con
        sum.case prod.case)
    apply (simp add: with_slots_def set_cells_vector_of)
    using len apply (simp add: vector_of_def)
    done
qed

lemma EmplaceBack_full:
  assumes quiet: "quiet_for (Suc (length xs)) w"
  shows "\<exists>w'. EmplaceBack T x (vector_of (length xs) xs) w =
           Inr (length xs,
                vector_of (if length xs \<noteq> 0 then length xs * 2 else 1) (xs @ [x]), w') \<and>
           throw_at w' = throw_at w \<and> live w' = live w + 1 \<and>
           blocks w' = blocks w + (if length xs = 0 then 1 else 0)"
proof -
  let ?k = "length xs"
  define m where "m = (if ?k \<noteq> 0 then ?k * 2 else 1)"
  have m: "?k < m" by (simp add: m_def)
  let ?w1 = "w\<lparr>blocks := blocks w + 1\<rparr>"
  let ?t = "replicate (m - Suc ?k) (None :: 'a option)"
  have fresh: "replicate m (None :: 'a option) = replicate ?k None @ None # ?t"
    using m by (simp add: replicate_split [of ?k m] replicate_tail)
  have new: "RawMemory_exact m w = (\<lparr>buffer = Some (replicate ?k None @ None # ?t), capacity = m\<rparr>, ?w1)"
    using m fresh by (simp add: RawMemory_exact_def Allocate_exact_def)
  have q1: "quiet_for (Suc ?k) ?w1" using quiet by simp
  have con: "construct_at (replicate ?k None @ None # ?t) ?k x ?w1 =
      Inr (replicate ?k None @ Some x # ?t, after_ctors 1 ?w1)"
    by (rule construct_at_index [OF _ q1]) simp
  have q2: "nothrow_move_constructible T \<or> quiet_for ?k (after_ctors 1 ?w1)"
    using quiet_for_step [OF q1] by simp
  obtain old w3 where
    mig0: "(if moves_elements T
      then uninitialized_move_n T (map Some xs @ []) 0 ?k
             (replicate ?k None @ Some x # ?t) 0 (after_ctors 1 ?w1)
      else copy_keeping_source (map Some xs @ []) 0 ?k
             (replicate ?k None @ Some x # ?t) 0 (after_ctors 1 ?w1))
     = Inr (old, map Some xs @ Some x # ?t, w3)"
    and des0: "destroy_n old 0 ?k w3 =
           Inr (replicate ?k None @ [], w3\<lparr>live := live w3 - int ?k\<rparr>)"
    and w3: "throw_at w3 = throw_at (after_ctors 1 ?w1)"
      "live w3 = live (after_ctors 1 ?w1) + int ?k" "blocks w3 = blocks (after_ctors 1 ?w1)"
    by (rule migrate [OF q2])
  note mig = mig0 [unfolded append_Nil2] and des = des0 [unfolded append_Nil2]
  have s: "slots (vector_of ?k xs) = map Some xs"
    by (simp add: slots_vector_of)
  show ?thesis
    apply (simp only: EmplaceBack_def Capacity_vector_of size_v_vector_of if_True Let_def
        m_def [symmetric] new prod.case cells_def RawMemory.simps option.case con sum.case s
        mig des)
    using w3 m apply (simp add: with_slots_def set_cells_vector_of set_cells_def
        RawMemory_Swap_def RawMemory_destroy_def Deallocate_def after_ctors_def)
    apply (auto simp add: vector_of_def m_def)
    done
qed

lemma PushBack_ok:
  assumes len: "length xs \<le> c" and nt: "never_throws w"
  shows "\<exists>w'. PushBack T x (vector_of c xs) w =
           Inr (vector_of (if length xs = c then (if c \<noteq> 0 then c * 2 else 1) else c) (xs @ [x]),
                w') \<and>
           never_throws w' \<and> live w' = live w + 1"
proof (cases "length xs = c")
  case True
  obtain w' where "EmplaceBack T x (vector_of (length xs) xs) w =
           Inr (length xs,
                vector_of (if length xs \<noteq> 0 then length xs * 2 else 1) (xs @ [x]), w')"
     "throw_at w' = throw_at w" "live w' = live w + 1"
    using EmplaceBack_full [OF never_throws_quiet [OF nt], where xs = xs and T = T and x = x]
    by blast
  then show ?thesis
    using True nt by (auto simp: PushBack_def never_throws_def)
next
  case False
  then have "length xs < c" using len by simp
  then show ?thesis
    using False nt EmplaceBack_spare [OF _ never_throws_quiet [OF nt], where xs = xs and c = c and T = T and x = x]
    by (simp add: PushBack_def after_ctors_def never_throws_def)
qed

lemma PopBack_ok:
  assumes "length xs < c"
  shows "PopBack (vector_of c (xs @ [x])) w = Inr (vector_of c xs, w\<lparr>live := live w - 1\<rparr>)"
proof -
  let ?t = "replicate (c - Suc (length xs)) (None :: 'a option)"
  have s: "slots (vector_of c (xs @ [x])) = map Some xs @ Some x # ?t"
    using assms by (simp add: slots_vector_of)
  have d: "destroy_n (map Some xs @ Some x # ?t) (length xs) (Suc 0) w =
           Inr (map Some xs @ None # ?t, w\<lparr>live := live w - 1\<rparr>)"
    by (simp add: nth_append list_update_append)
  have r: "map Some xs @ None # ?t = map Some xs @ replicate (c - length xs) None"
    using assms by (simp add: replicate_tail)
  have "PopBack (vector_of c (xs @ [x])) w =
          Inr ((with_slots (vector_of c (xs @ [x])) (map Some xs @ None # ?t))
                 \<lparr>size_v := length xs\<rparr>, w\<lparr>live := live w - 1\<rparr>)"
    unfolding PopBack_def s by (simp add: d del: destroy_n.simps)
  also have "(with_slots (vector_of c (xs @ [x])) (map Some xs @ None # ?t))\<lparr>size_v := length xs\<rparr>
      = vector_of c xs"
    unfolding r using assms by (simp add: with_slots_vector_of)
  finally show ?thesis .
qed

section \<open>Sequences of PushBack and PopBack\<close>

lemma list_ops_length:
  "list_ops ops xs = Some ys \<Longrightarrow> length ys + pops ops = length xs + pushes ops"
proof (induction ops xs rule: list_ops.induct)
  case (3 ops xs)
  then show ?case by (cases xs rule: rev_cases) (auto split: if_splits)
qed auto

lemma apply_ops_vector_of:
  "length xs \<le> c \<Longrightarrow> never_throws w \<Longrightarrow> list_ops ops xs = Some ys \<Longrightarrow>
   \<exists>c' w'. apply_ops T ops (vector_of c xs) w = Inr (vector_of c' ys, w') \<and> length ys \<le> c'"
proof (induction ops arbitrary: c xs w)
  case Nil
  then show ?case by auto
next
  case (Cons a ops)
  show ?case
  proof (cases a)
    case (Push x)
    let ?c = "if length xs = c then (if c \<noteq> 0 then c * 2 else 1) else c"
    obtain w1 where p: "PushBack T x (vector_of c xs) w = Inr (vector_of ?c (xs @ [x]), w1)"
      and nt: "never_throws w1"
      using PushBack_ok [OF Cons.prems(1,2)] by blast
    have len: "length (xs @ [x]) \<le> ?c" using Cons.prems(1) by auto
    have "list_ops ops (xs @ [x]) = Some ys" using Cons.prems(3) Push by simp
    from Cons.IH [OF len nt this] show ?thesis
      using Push p by simp
  next
    case Pop
    then have ne: "xs \<noteq> []" and l: "list_ops ops (butlast xs) = Some ys"
      using Cons.prems(3) by (auto split: if_splits)
    then obtain zs z where xs: "xs = zs @ [z]" by (cases xs rule: rev_cases) auto
    have lt: "length zs < c" using Cons.prems(1) xs by simp
    then have len: "length zs \<le> c" by simp
    have nt: "never_throws (w\<lparr>live := live w - 1\<rparr>)"
      using Cons.prems(2) by (simp add: never_throws_def)
    have "list_ops ops zs = Some ys" using l xs by simp
    from Cons.IH [OF len nt this] show ?thesis
      using Pop xs by (simp add: PopBack_ok [OF lt])
  qed
qed

text \<open>
  C6. Starting from any vector that satisfies the invariant, in a world where no constructor
  throws, a sequence of \<^verbatim>\<open>PushBack\<close> and \<^verbatim>\<open>PopBack\<close> calls in which \<^verbatim>\<open>PopBack\<close> is only
  applied to a non-empty vector (the same sequence on the list of elements is defined and
  gives \<open>ys\<close>) returns; the final size is the initial size plus the number of pushes minus
  the number of pops, and indexing over \<open>[0, size)\<close> returns the surviving elements in push
  order, which are the elements of \<open>ys\<close>.
\<close>

theorem push_pop_sequence:
  assumes "valid v" and "never_throws w" and "list_ops ops (elems v) = Some ys"
  shows "\<exists>v' w'. apply_ops T ops v w = Inr (v', w') \<and> valid v' \<and>
           Size v' = Size v + pushes ops - pops ops \<and> Size v' = length ys \<and>
           (\<forall>i < Size v'. subscript v' i = Some (ys ! i))"
proof -
  have v: "v = vector_of (Capacity v) (elems v)" by (rule valid_canonical [OF assms(1)])
  have len: "length (elems v) \<le> Capacity v"
    using assms(1) by (simp add: valid_length_elems valid_size_le)
  obtain c' w' where r: "apply_ops T ops (vector_of (Capacity v) (elems v)) w = Inr (vector_of c' ys, w')"
    and le: "length ys \<le> c'"
    using apply_ops_vector_of [OF len assms(2,3)] by blast
  have n: "length ys + pops ops = size_v v + pushes ops"
    using list_ops_length [OF assms(3)] assms(1) by (simp add: valid_length_elems)
  have "apply_ops T ops v w = Inr (vector_of c' ys, w')" using r v by simp
  moreover have "valid (vector_of c' ys)" by (rule valid_vector_of [OF le])
  moreover have "Size (vector_of c' ys) = Size v + pushes ops - pops ops"
    using n by (simp add: Size_def)
  moreover have "\<forall>i < Size (vector_of c' ys). subscript (vector_of c' ys) i = Some (ys ! i)"
    using le by (simp add: subscript_vector_of)
  ultimately show ?thesis by auto
qed

theorem push_pop_sequence_witness:
  "valid (vector_of 1 [4::nat]) \<and> never_throws (world_of 0 1 1) \<and>
   list_ops [Push 5, Push 6, Pop, Pop, Pop, Push 7] (elems (vector_of 1 [4::nat])) = Some [7] \<and>
   (\<exists>v' w'. apply_ops copying_type [Push 5, Push 6, Pop, Pop, Pop, Push 7] (vector_of 1 [4])
              (world_of 0 1 1) = Inr (v', w') \<and> valid v' \<and> Size v' = 1 \<and>
            (\<forall>i < Size v'. subscript v' i = Some ([7] ! i)))"
proof -
  have a: "valid (vector_of 1 [4::nat])" by (simp add: valid_vector_of)
  have b: "never_throws (world_of 0 1 1)" by (simp add: never_throws_def world_of_def)
  have c: "list_ops [Push 5, Push 6, Pop, Pop, Pop, Push 7] (elems (vector_of 1 [4::nat])) = Some [7]"
    by (simp add: elems_vector_of)
  show ?thesis
    using a b c push_pop_sequence [OF a b c, of copying_type] by (simp add: Size_def)
qed

section \<open>Reserve followed by PushBack\<close>

lemma capacities_pushing_spare:
  "length xs + length ys \<le> c \<Longrightarrow> never_throws w \<Longrightarrow>
   capacities_pushing T ys (vector_of c xs) w = Some (replicate (length ys) c)"
proof (induction ys arbitrary: xs w)
  case Nil
  then show ?case by simp
next
  case (Cons y ys)
  have lt: "length xs < c" using Cons.prems(1) by simp
  have p: "PushBack T y (vector_of c xs) w = Inr (vector_of c (xs @ [y]), after_ctors 1 w)"
    using EmplaceBack_spare [OF lt never_throws_quiet [OF Cons.prems(2)], where T = T and x = y]
    by (simp add: PushBack_def)
  have nt: "never_throws (after_ctors 1 w)"
    using Cons.prems(2) by (simp add: never_throws_def after_ctors_def)
  have "length (xs @ [y]) + length ys \<le> c" using Cons.prems(1) by simp
  from Cons.IH [OF this nt] show ?case
    by (simp add: p)
qed

text \<open>
  A request that wraps around: \<^verbatim>\<open>Reserve(2^61)\<close> on an empty vector of 8-byte elements
  asks for \<open>2^61 * 8 = 2^64\<close> bytes, which is 0 in \<^verbatim>\<open>size_t\<close>. The call returns with
  capacity \<open>2^61\<close> over a block without room for any element, and the next \<^verbatim>\<open>PushBack\<close>
  constructs outside the block.
\<close>

lemma Reserve_request_wraps:
  "\<not> fits copying_type 2305843009213693952 \<and>
   Reserve copying_type 2305843009213693952 Vector_default (world_of 0 0 0) =
     Inr (\<lparr>data = \<lparr>buffer = Some [], capacity = 2305843009213693952\<rparr>, size_v = 0\<rparr>,
          \<lparr>ctor_calls = 0, throw_at = 0, live = 0, blocks = 1\<rparr>) \<and>
   PushBack copying_type 7
     \<lparr>data = \<lparr>buffer = Some [], capacity = 2305843009213693952\<rparr>, size_v = 0\<rparr>
     \<lparr>ctor_calls = 0, throw_at = 0, live = 0, blocks = 1\<rparr> = Inl UB"
  by (simp add: fits_def copying_type_def Reserve_def Vector_default_def RawMemory_default_def
      Capacity_def RawMemory_new_def Allocate_def world_of_def moves_elements_def
      copy_keeping_source_def uninitialized_copy_n_def slots_def cells_def set_cells_def
      with_slots_def RawMemory_Swap_def RawMemory_destroy_def Deallocate_def PushBack_def
      EmplaceBack_def construct_at_def)

text \<open>
  C7, as stated, fails: after \<^verbatim>\<open>Reserve(2)\<close> on a vector that already holds one element
  (capacity 1), the second of two \<^verbatim>\<open>PushBack\<close> calls finds the vector full and reallocates:
  the capacities observed are 2 and 4.
\<close>

theorem reserve_then_pushes_counterexample:
  "valid (vector_of 1 [1::nat]) \<and> never_throws (world_of 0 1 1) \<and> length [5, 6::nat] \<le> 2 \<and>
   fits copying_type 2 \<and>
   Reserve copying_type 2 (vector_of 1 [1]) (world_of 0 1 1) =
     Inr (vector_of 2 [1], \<lparr>ctor_calls = 1, throw_at = 0, live = 1, blocks = 1\<rparr>) \<and>
   capacities_pushing copying_type [5, 6] (vector_of 2 [1])
     \<lparr>ctor_calls = 1, throw_at = 0, live = 1, blocks = 1\<rparr> = Some [2, 4] \<and>
   capacities_pushing copying_type [5, 6] (vector_of 2 [1])
     \<lparr>ctor_calls = 1, throw_at = 0, live = 1, blocks = 1\<rparr> \<noteq>
     Some (replicate (length [5, 6::nat]) (max 2 (Capacity (vector_of 1 [1::nat]))))"
proof -
  have f: "fits copying_type 2" by (simp add: fits_def copying_type_def)
  have r: "Reserve copying_type 2 (vector_of 1 [1]) (world_of 0 1 1) =
     Inr (vector_of 2 [1], \<lparr>ctor_calls = 1, throw_at = 0, live = 1, blocks = 1\<rparr>)"
    unfolding Reserve_def RawMemory_new_fits [OF f] by code_simp
  have p: "valid (vector_of 1 [1::nat]) \<and> never_throws (world_of 0 1 1) \<and>
     length [5, 6::nat] \<le> 2 \<and>
     capacities_pushing copying_type [5, 6] (vector_of 2 [1])
       \<lparr>ctor_calls = 1, throw_at = 0, live = 1, blocks = 1\<rparr> = Some [2, 4] \<and>
     capacities_pushing copying_type [5, 6] (vector_of 2 [1])
       \<lparr>ctor_calls = 1, throw_at = 0, live = 1, blocks = 1\<rparr> \<noteq>
       Some (replicate (length [5, 6::nat]) (max 2 (Capacity (vector_of 1 [1::nat]))))"
    by code_simp
  show ?thesis using f r p by blast
qed

text \<open>
  C7, amended. \<^verbatim>\<open>Reserve(n)\<close> with \<open>n \<le> capacity\<close> changes nothing. For a request that
  fits (\<^verbatim>\<open>n * sizeof(T)\<close> does not wrap around), after \<^verbatim>\<open>Reserve(n)\<close> the capacity is the
  larger of \<open>n\<close> and the old capacity, the elements are the same, and a run of \<^verbatim>\<open>PushBack\<close>
  calls that keeps the size within that capacity (on an empty vector: up to \<open>n\<close> of them)
  never reallocates: the capacity observed after each push is that capacity.
\<close>

theorem reserve_then_pushes_within_capacity:
  assumes "valid v" and "never_throws w" and "n \<le> Capacity v \<or> fits T n"
    and "Size v + length xs \<le> max n (Capacity v)"
  shows "(n \<le> Capacity v \<longrightarrow> Reserve T n v w = Inr (v, w)) \<and>
         (\<exists>v1 w1. Reserve T n v w = Inr (v1, w1) \<and> Size v1 = Size v \<and>
                  elems v1 = elems v \<and> Capacity v1 = max n (Capacity v) \<and>
                  capacities_pushing T xs v1 w1 =
                    Some (replicate (length xs) (max n (Capacity v))))"
proof -
  let ?c = "Capacity v" and ?es = "elems v"
  have v: "v = vector_of ?c ?es" by (rule valid_canonical [OF assms(1)])
  have sz: "length ?es = size_v v" using assms(1) by (rule valid_length_elems)
  have len: "length ?es \<le> ?c" using assms(1) by (simp add: sz valid_size_le)
  have room: "length ?es + length xs \<le> max n ?c" using assms(4) by (simp add: sz Size_def)
  show ?thesis
  proof (cases "n \<le> ?c")
    case True
    have r: "Reserve T n v w = Inr (v, w)" by (rule Reserve_noop [OF True])
    have "capacities_pushing T xs (vector_of ?c ?es) w = Some (replicate (length xs) ?c)"
      using room True by (intro capacities_pushing_spare assms(2)) (simp add: max_absorb2)
    then have "capacities_pushing T xs v w = Some (replicate (length xs) (max n ?c))"
      using v True by (simp add: max_absorb2)
    then show ?thesis using r True by (simp add: max_absorb2 Size_def)
  next
    case False
    then have grow: "?c < n" by simp
    have fit: "fits T n" using False assms(3) by simp
    obtain w1 where r: "Reserve T n (vector_of ?c ?es) w = Inr (vector_of n ?es, w1)"
      and t: "throw_at w1 = throw_at w"
      using Reserve_grow [OF len grow fit, of w] never_throws_quiet [OF assms(2)] by blast
    have nt: "never_throws w1" using t assms(2) by (simp add: never_throws_def)
    have le: "length ?es \<le> n" using len grow by simp
    have "capacities_pushing T xs (vector_of n ?es) w1 = Some (replicate (length xs) n)"
      using room grow by (intro capacities_pushing_spare nt) (simp add: max_absorb1)
    moreover have "Reserve T n v w = Inr (vector_of n ?es, w1)" using r v by simp
    ultimately show ?thesis
      using False grow le by (simp add: max_absorb1 elems_vector_of Size_def sz)
  qed
qed

theorem reserve_then_pushes_within_capacity_witness:
  "valid (vector_of 1 [1::nat]) \<and> never_throws (world_of 0 1 1) \<and>
   (3 \<le> Capacity (vector_of 1 [1::nat]) \<or> fits copying_type 3) \<and>
   Size (vector_of 1 [1::nat]) + length [5, 6::nat] \<le> max 3 (Capacity (vector_of 1 [1::nat])) \<and>
   (\<exists>v1 w1. Reserve copying_type 3 (vector_of 1 [1]) (world_of 0 1 1) = Inr (v1, w1) \<and>
      capacities_pushing copying_type [5, 6] v1 w1 = Some [3, 3])"
proof -
  have a: "valid (vector_of 1 [1::nat])" by (simp add: valid_vector_of)
  have b: "never_throws (world_of 0 1 1)" by (simp add: never_throws_def world_of_def)
  have f: "3 \<le> Capacity (vector_of 1 [1::nat]) \<or> fits copying_type 3"
    by (simp add: fits_def copying_type_def)
  have c: "Size (vector_of 1 [1::nat]) + length [5, 6::nat] \<le> max 3 (Capacity (vector_of 1 [1::nat]))"
    by simp
  have "replicate (length [5, 6::nat]) (max 3 (Capacity (vector_of 1 [1::nat]))) = [3, 3]"
    by (simp add: numeral_2_eq_2)
  then show ?thesis
    using a b f c reserve_then_pushes_within_capacity [OF a b f c] by auto
qed

section \<open>Erase\<close>

lemma move_loop_shift:
  "move_loop T (p @ Some e # map Some xs @ s) (Suc (length p)) (length xs) (length p) =
     Some (p @ map Some xs @ Some (residue T e xs) # s)"
proof (induction xs arbitrary: p e)
  case Nil
  then show ?case by simp
next
  case (Cons x xs)
  have "move_loop T ((p @ [Some x]) @ Some (moved_from T x) # map Some xs @ s)
          (Suc (length (p @ [Some x]))) (length xs) (length (p @ [Some x])) =
        Some ((p @ [Some x]) @ map Some xs @ Some (residue T (moved_from T x) xs) # s)"
    by (rule Cons.IH)
  then show ?case
    by (simp add: nth_append list_update_append)
qed

lemma Erase_vector_of:
  assumes len: "length (ys @ e # xs) \<le> c"
  shows "Erase T (length ys) (vector_of c (ys @ e # xs)) w =
           Inr (length ys, vector_of c (ys @ xs), w\<lparr>live := live w - 1\<rparr>)"
proof -
  let ?r = "residue T e xs"
  let ?t = "replicate (c - length (ys @ e # xs)) (None :: 'a option)"
  have s: "slots (vector_of c (ys @ e # xs)) = map Some ys @ Some e # map Some xs @ ?t"
    using len by (simp add: slots_vector_of)
  have m: "move_range T (map Some ys @ Some e # map Some xs @ ?t) (length ys + 1)
             (size_v (vector_of c (ys @ e # xs))) (length ys) =
           Some (map Some ys @ map Some xs @ Some ?r # ?t)"
    using move_loop_shift [of T "map Some ys" e xs ?t] by (simp add: move_range_def)
  have w: "with_slots (vector_of c (ys @ e # xs)) (map Some ys @ map Some xs @ Some ?r # ?t) =
           vector_of c ((ys @ xs) @ [?r])"
    using len with_slots_vector_of [of "(ys @ xs) @ [?r]" c "ys @ e # xs"] by simp
  have lt: "length (ys @ xs) < c" using len by simp
  show ?thesis
    unfolding Erase_def s m option.case w PopBack_ok [OF lt] by simp
qed

text \<open>
  C9. On a vector of size \<open>n \<ge> 1\<close> that satisfies the invariant, \<^verbatim>\<open>Erase\<close> at a position
  \<open>i < n\<close> returns; the size becomes \<open>n - 1\<close>, the elements \<open>[0, i)\<close> are unchanged, the
  elements \<open>[i, n - 1)\<close> are the former elements \<open>[i + 1, n)\<close>, and the iterator returned is
  the position \<open>i\<close>, the slot that now holds the element that followed the erased one. One
  object has been destroyed and the capacity is unchanged.
\<close>

theorem erase_shifts_tail:
  assumes "valid v" and "i < Size v"
  shows "\<exists>v' w'. Erase T i v w = Inr (i, v', w') \<and> valid v' \<and> Size v' = Size v - 1 \<and>
           (\<forall>j < i. subscript v' j = subscript v j) \<and>
           (\<forall>j. i \<le> j \<and> j < Size v - 1 \<longrightarrow> subscript v' j = subscript v (j + 1)) \<and>
           (\<forall>j < Size v'. subscript v' j \<noteq> None) \<and>
           Capacity v' = Capacity v \<and> live w' = live w - 1"
proof -
  let ?c = "Capacity v" and ?es = "elems v"
  have v: "v = vector_of ?c ?es" by (rule valid_canonical [OF assms(1)])
  have sz: "length ?es = size_v v" using assms(1) by (rule valid_length_elems)
  have len: "length ?es \<le> ?c" using assms(1) by (simp add: sz valid_size_le)
  have i: "i < length ?es" using assms(2) by (simp add: sz Size_def)
  define ys where "ys = take i ?es"
  define xs where "xs = drop (Suc i) ?es"
  have es: "?es = ys @ ?es ! i # xs" and ly: "length ys = i"
    using i by (simp_all add: ys_def xs_def id_take_nth_drop [symmetric])
  have len': "length (ys @ ?es ! i # xs) \<le> ?c" using len es by simp
  have e: "Erase T i (vector_of ?c (ys @ ?es ! i # xs)) w =
             Inr (i, vector_of ?c (ys @ xs), w\<lparr>live := live w - 1\<rparr>)"
    using Erase_vector_of [OF len', of T w] by (simp add: ly)
  have le2: "length (ys @ xs) \<le> ?c" using len' by simp
  have n: "length (ys @ xs) = size_v v - 1" using es sz by (metis add_diff_cancel_right' length_append length_Cons add_Suc_right One_nat_def plus_1_eq_Suc add.commute)
  have sub: "subscript v j = (if j < length ?es then Some (?es ! j) else None)" for j
    using subscript_vector_of [OF len, of j] v by simp
  have sub': "subscript (vector_of ?c (ys @ xs)) j =
      (if j < length (ys @ xs) then Some ((ys @ xs) ! j) else None)" for j
    by (rule subscript_vector_of [OF le2])
  have ynth: "ys ! j = ?es ! j" if "j < i" for j
    using that by (simp add: ys_def)
  have lx: "length xs = size_v v - Suc i" by (simp add: xs_def sz)
  have xnth: "xs ! (j - i) = ?es ! Suc j" if "i \<le> j" and "Suc j < size_v v" for j
    using that sz by (simp add: xs_def)
  have front: "\<forall>j < i. subscript (vector_of ?c (ys @ xs)) j = subscript v j"
    using i ly sz by (auto simp: sub sub' nth_append ynth)
  have rear: "\<forall>j. i \<le> j \<and> j < Size v - 1 \<longrightarrow>
      subscript (vector_of ?c (ys @ xs)) j = subscript v (j + 1)"
    using i ly lx sz by (auto simp: sub sub' nth_append xnth Size_def)
  have "Erase T i v w = Inr (i, vector_of ?c (ys @ xs), w\<lparr>live := live w - 1\<rparr>)"
    using e v es by simp
  moreover have "valid (vector_of ?c (ys @ xs))" by (rule valid_vector_of [OF le2])
  moreover have "Size (vector_of ?c (ys @ xs)) = Size v - 1" using n by (simp add: Size_def)
  moreover have "\<forall>j < Size (vector_of ?c (ys @ xs)). subscript (vector_of ?c (ys @ xs)) j \<noteq> None"
    by (simp add: sub')
  ultimately show ?thesis using front rear by auto
qed

theorem erase_shifts_tail_witness:
  "valid (vector_of 4 [1, 2, 3::nat]) \<and> 1 < Size (vector_of 4 [1, 2, 3::nat]) \<and>
   (\<exists>v' w'. Erase copying_type 1 (vector_of 4 [1, 2, 3]) (world_of 0 3 1) = Inr (1, v', w') \<and>
      Size v' = 2 \<and> subscript v' 0 = Some 1 \<and> subscript v' 1 = Some 3)"
proof -
  have a: "valid (vector_of 4 [1, 2, 3::nat])" by (simp add: valid_vector_of)
  have b: "1 < Size (vector_of 4 [1, 2, 3::nat])" by simp
  have c: "subscript (vector_of 4 [1, 2, 3::nat]) 0 = Some 1"
    "subscript (vector_of 4 [1, 2, 3::nat]) (1 + 1) = Some 3"
    by (simp_all add: subscript_vector_of)
  show ?thesis
    using a b c erase_shifts_tail [OF a b, of copying_type "world_of 0 3 1"] by auto
qed

section \<open>Constructors that throw\<close>

lemma Vector_sized_throw:
  assumes fit: "fits T n"
    and t1: "ctor_calls w < throw_at w" and t2: "throw_at w \<le> ctor_calls w + n"
  shows "Vector_sized T n w = Inl (Throw (w\<lparr>ctor_calls := throw_at w\<rparr>))"
proof -
  let ?w1 = "w\<lparr>blocks := blocks w + 1\<rparr>"
  have n: "n \<noteq> 0" using t1 t2 by auto
  have new: "RawMemory_new T n w =
      (\<lparr>buffer = Some (replicate n (None :: 'a option)), capacity = n\<rparr>, ?w1)"
    using n by (simp add: RawMemory_new_fits [OF fit] RawMemory_exact_def Allocate_exact_def)
  have a: "ctor_calls ?w1 < throw_at ?w1" "throw_at ?w1 \<le> ctor_calls ?w1 + n"
    using t1 t2 by simp_all
  have u: "uninitialized_value_construct_n T (replicate n None) 0 n ?w1 =
      Inl (Throw (replicate n None, ?w1\<lparr>ctor_calls := throw_at ?w1\<rparr>))"
    using uninitialized_value_construct_n_throw [OF a, of T "[]" "[]"] by simp
  show ?thesis
    unfolding Vector_sized_def new prod.case cells_def RawMemory.simps option.case u
    by (simp add: set_cells_def RawMemory_destroy_def Deallocate_def)
qed

lemma uninit_move_loop_throw:
  "\<not> nothrow_move_constructible T \<Longrightarrow>
   ctor_calls w < throw_at w \<Longrightarrow> throw_at w \<le> ctor_calls w + length xs \<Longrightarrow>
   length r = length xs \<Longrightarrow>
   uninit_move_loop T (p @ map Some xs @ s) (length p) (length xs) (q @ r @ t) (length q) w =
     Inl (Throw (p @ map Some (map (moved_from T) (take (throw_at w - Suc (ctor_calls w)) xs))
                   @ map Some (drop (throw_at w - Suc (ctor_calls w)) xs) @ s,
                 q @ map Some (take (throw_at w - Suc (ctor_calls w)) xs)
                   @ drop (throw_at w - Suc (ctor_calls w)) r @ t,
                 length q + (throw_at w - Suc (ctor_calls w)),
                 (after_ctors (throw_at w - Suc (ctor_calls w)) w)\<lparr>ctor_calls := throw_at w\<rparr>))"
proof (induction xs arbitrary: p q r w)
  case Nil
  then show ?case by simp
next
  case (Cons x xs)
  then obtain y r' where r: "r = y # r'" and len: "length r' = length xs"
    by (cases r) auto
  have mc: "move_ctor T w' = ctor w'" for w'
    using Cons.prems(1) by (simp add: move_ctor_def)
  show ?case
  proof (cases "throw_at w = Suc (ctor_calls w)")
    case True
    then show ?thesis
      by (simp add: r nth_append mc ctor_throws after_ctors_0)
  next
    case False
    then have q: "quiet_for (Suc 0) w" using Cons.prems by (simp add: quiet_for_def)
    let ?w = "after_ctors 1 w"
    have a: "ctor_calls ?w < throw_at ?w" "throw_at ?w \<le> ctor_calls ?w + length xs"
      using False Cons.prems by (simp_all add: after_ctors_def)
    have k: "throw_at w - Suc (ctor_calls w) = Suc (throw_at ?w - Suc (ctor_calls ?w))"
      using False Cons.prems by (simp add: after_ctors_def)
    have "uninit_move_loop T ((p @ [Some (moved_from T x)]) @ map Some xs @ s)
            (length (p @ [Some (moved_from T x)])) (length xs)
            ((q @ [Some x]) @ r' @ t) (length (q @ [Some x])) ?w =
          Inl (Throw ((p @ [Some (moved_from T x)])
                   @ map Some (map (moved_from T) (take (throw_at ?w - Suc (ctor_calls ?w)) xs))
                   @ map Some (drop (throw_at ?w - Suc (ctor_calls ?w)) xs) @ s,
                 (q @ [Some x]) @ map Some (take (throw_at ?w - Suc (ctor_calls ?w)) xs)
                   @ drop (throw_at ?w - Suc (ctor_calls ?w)) r' @ t,
                 length (q @ [Some x]) + (throw_at ?w - Suc (ctor_calls ?w)),
                 (after_ctors (throw_at ?w - Suc (ctor_calls ?w)) ?w)\<lparr>ctor_calls := throw_at ?w\<rparr>))"
      by (rule Cons.IH [OF Cons.prems(1) a len])
    then show ?thesis
      by (simp add: r nth_append mc ctor_quiet [OF q] k after_ctors_add)
        (simp add: after_ctors_def)
  qed
qed

lemma uninitialized_move_n_throw:
  assumes "\<not> nothrow_move_constructible T"
    and "ctor_calls w < throw_at w" and "throw_at w \<le> ctor_calls w + length xs"
  shows "uninitialized_move_n T (p @ map Some xs @ s) (length p) (length xs)
           (q @ replicate (length xs) None @ t) (length q) w =
         Inl (Throw (p @ map Some (map (moved_from T) (take (throw_at w - Suc (ctor_calls w)) xs)
                                   @ drop (throw_at w - Suc (ctor_calls w)) xs) @ s,
                     q @ replicate (length xs) None @ t, w\<lparr>ctor_calls := throw_at w\<rparr>))"
proof -
  define k where "k = throw_at w - Suc (ctor_calls w)"
  have k: "k < length xs" using assms by (simp add: k_def)
  have len: "length (take k xs) = k" using k by simp
  have d: "destroy_n (q @ map Some (take k xs) @ drop k (replicate (length xs) None) @ t)
             (length q) (length (take k xs)) ((after_ctors k w)\<lparr>ctor_calls := throw_at w\<rparr>) =
           Inr (q @ replicate (length (take k xs)) None @ drop k (replicate (length xs) None) @ t,
                ((after_ctors k w)\<lparr>ctor_calls := throw_at w\<rparr>)
                  \<lparr>live := live ((after_ctors k w)\<lparr>ctor_calls := throw_at w\<rparr>) - int (length (take k xs))\<rparr>)"
    by (rule destroy_n_run)
  have r: "replicate k None @ replicate (length xs - k) (None :: 'a option) = replicate (length xs) None"
    using k by (simp add: replicate_add [symmetric])
  have "uninit_move_loop T (p @ map Some xs @ s) (length p) (length xs)
           (q @ replicate (length xs) None @ t) (length q) w =
        Inl (Throw (p @ map Some (map (moved_from T) (take k xs)) @ map Some (drop k xs) @ s,
                 q @ map Some (take k xs) @ drop k (replicate (length xs) None) @ t,
                 length q + k, (after_ctors k w)\<lparr>ctor_calls := throw_at w\<rparr>))"
    unfolding k_def by (rule uninit_move_loop_throw [OF assms]) simp
  then show ?thesis
    using d k r unfolding uninitialized_move_n_def k_def [symmetric]
    by (simp add: len after_ctors_def min_absorb2 flip: append_assoc)
qed

lemma vector_of_size_v_eq: "n = length xs \<Longrightarrow> (vector_of c xs)\<lparr>size_v := n\<rparr> = vector_of c xs"
  by (simp add: vector_of_def)

text \<open>
  \<^verbatim>\<open>Reserve\<close> for a type that is moved although its move constructor can throw: when a move
  throws, the elements before it are left in their moved-from state. Size, capacity, live
  objects and blocks are as before.
\<close>

lemma Reserve_throw_move:
  assumes len: "length xs \<le> c" and grow: "c < n" and fit: "fits T n"
    and mv: "moves_elements T" and nn: "\<not> nothrow_move_constructible T"
    and t1: "ctor_calls w < throw_at w" and t2: "throw_at w \<le> ctor_calls w + length xs"
  shows "Reserve T n (vector_of c xs) w =
           Inl (Throw (vector_of c (map (moved_from T) (take (throw_at w - Suc (ctor_calls w)) xs)
                                    @ drop (throw_at w - Suc (ctor_calls w)) xs),
                       w\<lparr>ctor_calls := throw_at w\<rparr>))"
proof -
  let ?k = "length xs"
  let ?w1 = "w\<lparr>blocks := blocks w + 1\<rparr>"
  define ys where
    "ys = map (moved_from T) (take (throw_at w - Suc (ctor_calls w)) xs)
          @ drop (throw_at w - Suc (ctor_calls w)) xs"
  have ly: "length ys = ?k" using t1 t2 by (simp add: ys_def)
  have fresh: "replicate n (None :: 'a option) = replicate ?k None @ replicate (n - ?k) None"
    using len grow by (intro replicate_split) simp
  have new: "RawMemory_new T n w =
      (\<lparr>buffer = Some (replicate ?k (None :: 'a option) @ replicate (n - ?k) None),
        capacity = n\<rparr>, ?w1)"
    using grow fresh
    by (simp add: RawMemory_new_fits [OF fit] RawMemory_exact_def Allocate_exact_def)
  have ng: "(n \<le> c) = False" using grow by simp
  have a: "ctor_calls ?w1 < throw_at ?w1" "throw_at ?w1 \<le> ctor_calls ?w1 + ?k"
    using t1 t2 by simp_all
  have c0: "0 < c" using len t1 t2 by (cases xs) auto
  have "uninitialized_move_n T ([] @ map Some xs @ replicate (c - ?k) None) (length ([] :: 'a option list))
          ?k ([] @ replicate ?k None @ replicate (n - ?k) None) (length ([] :: 'a option list)) ?w1 =
        Inl (Throw ([] @ map Some (map (moved_from T) (take (throw_at ?w1 - Suc (ctor_calls ?w1)) xs)
                                   @ drop (throw_at ?w1 - Suc (ctor_calls ?w1)) xs)
                       @ replicate (c - ?k) None,
                    [] @ replicate ?k None @ replicate (n - ?k) None,
                    ?w1\<lparr>ctor_calls := throw_at ?w1\<rparr>))"
    by (rule uninitialized_move_n_throw [OF nn a])
  then have mig: "(if moves_elements T
      then uninitialized_move_n T (map Some xs @ replicate (c - ?k) None) 0 ?k
             (replicate ?k None @ replicate (n - ?k) None) 0 ?w1
      else copy_keeping_source (map Some xs @ replicate (c - ?k) None) 0 ?k
             (replicate ?k None @ replicate (n - ?k) None) 0 ?w1)
     = Inl (Throw (map Some ys @ replicate (c - ?k) None,
                   replicate ?k None @ replicate (n - ?k) None, ?w1\<lparr>ctor_calls := throw_at ?w1\<rparr>))"
    using mv by (simp add: ys_def)
  have ws: "with_slots (vector_of c xs) (map Some ys @ replicate (c - ?k) None) = vector_of c ys"
    using with_slots_vector_of [of ys c xs] len ly by (simp add: vector_of_size_v_eq)
  show ?thesis
    apply (simp only: Reserve_def Capacity_vector_of size_v_vector_of slots_vector_of [OF len]
        new ng if_False prod.case cells_def RawMemory.simps option.case mig sum.case error.case
        ws ys_def [symmetric])
    apply (simp add: set_cells_def RawMemory_destroy_def Deallocate_def)
    done
qed

text \<open>
  C4, as stated, fails for \<^verbatim>\<open>Reserve\<close>: for a type that is not copyable and whose move
  constructor throws, the \<^verbatim>\<open>if constexpr\<close> test selects \<^verbatim>\<open>std::uninitialized_move_n\<close>.
  When the second move throws, the first element of the vector has already been moved
  from: the vector keeps size 2 and capacity 2, and no object or block is left over, but
  its elements are no longer \<open>[1, 2]\<close>.
\<close>

theorem reserve_throwing_move_counterexample:
  "valid (vector_of 2 [1, 2::nat]) \<and> fits move_only_type 4 \<and>
   Reserve move_only_type 4 (vector_of 2 [1, 2]) (world_of 2 2 1) =
     Inl (Throw (vector_of 2 [0, 2], \<lparr>ctor_calls = 2, throw_at = 2, live = 2, blocks = 1\<rparr>)) \<and>
   elems (vector_of 2 [0, 2::nat]) \<noteq> elems (vector_of 2 [1, 2::nat])"
proof -
  have f: "fits move_only_type 4" by (simp add: fits_def move_only_type_def)
  have r: "Reserve move_only_type 4 (vector_of 2 [1, 2]) (world_of 2 2 1) =
     Inl (Throw (vector_of 2 [0, 2], \<lparr>ctor_calls = 2, throw_at = 2, live = 2, blocks = 1\<rparr>))"
    unfolding Reserve_def RawMemory_new_fits [OF f] by code_simp
  have e: "valid (vector_of 2 [1, 2::nat]) \<and>
     elems (vector_of 2 [0, 2::nat]) \<noteq> elems (vector_of 2 [1, 2::nat])"
    by code_simp
  show ?thesis using f r e by blast
qed

text \<open>
  C4, amended. The throwing constructor call is still ahead. For every element type:
  when the request \<open>n\<close> fits (\<^verbatim>\<open>n * sizeof(T)\<close> does not wrap around) and the throwing
  call is among the \<open>n\<close> calls of \<^verbatim>\<open>Vector(n)\<close>, the construction throws and leaves no live
  element and no storage behind. For every element type, every vector that satisfies the
  invariant and every \<open>n\<close> that is at most the capacity or fits, \<^verbatim>\<open>Reserve(n)\<close> has no
  undefined behaviour (no destructor runs on a slot without an object), and whenever it
  throws, the vector satisfies the invariant and has the size and the capacity it had, no
  live element or block is left over, and every element is the one it was or that one
  moved from; the vector is exactly as before when the element type is copy constructible
  or its move constructor cannot throw. It does throw when the move constructor can throw
  and the throwing call is among the calls for the elements.
\<close>

theorem construct_and_reserve_roll_back:
  assumes "ctor_calls w < throw_at w"
  shows "(fits T n \<and> throw_at w \<le> ctor_calls w + n \<longrightarrow>
            (\<exists>w'. Vector_sized T n w = Inl (Throw w') \<and> live w' = live w \<and>
                   blocks w' = blocks w)) \<and>
         (valid v \<and> (n \<le> Capacity v \<or> fits T n) \<longrightarrow>
            Reserve T n v w \<noteq> Inl UB \<and>
            (\<forall>v' w'. Reserve T n v w = Inl (Throw (v', w')) \<longrightarrow>
               valid v' \<and> Size v' = Size v \<and> Capacity v' = Capacity v \<and>
               live w' = live w \<and> blocks w' = blocks w \<and>
               (copy_constructible T \<or> nothrow_move_constructible T \<longrightarrow> v' = v) \<and>
               (\<forall>i < Size v. subscript v' i = subscript v i \<or>
                              subscript v' i = map_option (moved_from T) (subscript v i))) \<and>
            (\<not> nothrow_move_constructible T \<and> Capacity v < n \<and>
             throw_at w \<le> ctor_calls w + Size v \<longrightarrow>
               (\<exists>v' w'. Reserve T n v w = Inl (Throw (v', w')))))"
proof -
  have sized: "fits T n \<and> throw_at w \<le> ctor_calls w + n \<longrightarrow>
            (\<exists>w'. Vector_sized T n w = Inl (Throw w') \<and> live w' = live w \<and>
                   blocks w' = blocks w)"
    using Vector_sized_throw [OF _ assms, of T n] by simp
  have reserve: "Reserve T n v w \<noteq> Inl UB \<and>
            (\<forall>v' w'. Reserve T n v w = Inl (Throw (v', w')) \<longrightarrow>
               valid v' \<and> Size v' = Size v \<and> Capacity v' = Capacity v \<and>
               live w' = live w \<and> blocks w' = blocks w \<and>
               (copy_constructible T \<or> nothrow_move_constructible T \<longrightarrow> v' = v) \<and>
               (\<forall>i < Size v. subscript v' i = subscript v i \<or>
                              subscript v' i = map_option (moved_from T) (subscript v i))) \<and>
            (\<not> nothrow_move_constructible T \<and> Capacity v < n \<and>
             throw_at w \<le> ctor_calls w + Size v \<longrightarrow>
               (\<exists>v' w'. Reserve T n v w = Inl (Throw (v', w'))))"
    if val: "valid v" and fit: "n \<le> Capacity v \<or> fits T n"
  proof -
    let ?c = "Capacity v" and ?es = "elems v"
    have v: "v = vector_of ?c ?es" by (rule valid_canonical [OF val])
    have sz: "length ?es = size_v v" using val by (rule valid_length_elems)
    have len: "length ?es \<le> ?c" using val by (simp add: sz valid_size_le)
    consider (noop) "n \<le> ?c"
      | (quiet) "?c < n" "nothrow_move_constructible T \<or> quiet_for (length ?es) w"
      | (copies) "?c < n" "\<not> nothrow_move_constructible T" "\<not> quiet_for (length ?es) w"
          "\<not> moves_elements T"
      | (moves) "?c < n" "\<not> nothrow_move_constructible T" "\<not> quiet_for (length ?es) w"
          "moves_elements T"
      by fastforce
    then show ?thesis
    proof cases
      case noop
      then show ?thesis by (simp add: Reserve_noop)
    next
      case quiet
      have f: "fits T n" using fit quiet(1) by simp
      obtain w' where "Reserve T n (vector_of ?c ?es) w = Inr (vector_of n ?es, w')"
        using Reserve_grow [OF len quiet(1) f quiet(2)] by blast
      then have "Reserve T n v w = Inr (vector_of n ?es, w')" using v by simp
      moreover have "\<not> (\<not> nothrow_move_constructible T \<and> throw_at w \<le> ctor_calls w + Size v)"
        using quiet(2) assms by (auto simp: quiet_for_def sz Size_def)
      ultimately show ?thesis by simp
    next
      case copies
      have f: "fits T n" using fit copies(1) by simp
      have t: "throw_at w \<le> ctor_calls w + length ?es"
        using copies(3) by (simp add: quiet_for_def)
      have "Reserve T n (vector_of ?c ?es) w =
              Inl (Throw (vector_of ?c ?es, w\<lparr>ctor_calls := throw_at w\<rparr>))"
        by (rule Reserve_throw [OF len copies(1) f copies(4) assms t])
      then have "Reserve T n v w = Inl (Throw (v, w\<lparr>ctor_calls := throw_at w\<rparr>))"
        using v by simp
      then show ?thesis using val by simp
    next
      case moves
      have f: "fits T n" using fit moves(1) by simp
      have t: "throw_at w \<le> ctor_calls w + length ?es"
        using moves(3) by (simp add: quiet_for_def)
      have nc: "\<not> copy_constructible T" using moves(2,4) by (simp add: moves_elements_def)
      define k where "k = throw_at w - Suc (ctor_calls w)"
      define ys where "ys = map (moved_from T) (take k ?es) @ drop k ?es"
      have ly: "length ys = length ?es" by (simp add: ys_def)
      have le: "length ys \<le> ?c" using len ly by simp
      have "Reserve T n (vector_of ?c ?es) w =
              Inl (Throw (vector_of ?c ys, w\<lparr>ctor_calls := throw_at w\<rparr>))"
        unfolding ys_def k_def
        by (rule Reserve_throw_move [OF len moves(1) f moves(4,2) assms t])
      then have r: "Reserve T n v w = Inl (Throw (vector_of ?c ys, w\<lparr>ctor_calls := throw_at w\<rparr>))"
        using v by simp
      have sub: "subscript v i = Some (?es ! i)" if "i < length ?es" for i
        using subscript_vector_of [OF len, of i] v that by simp
      have sub': "subscript (vector_of ?c ys) i = Some (ys ! i)" if "i < length ?es" for i
        using subscript_vector_of [OF le, of i] that ly by simp
      have nth: "ys ! i = ?es ! i \<or> ys ! i = moved_from T (?es ! i)" if "i < length ?es" for i
        using that by (cases "i < k") (simp_all add: ys_def nth_append min_def)
      have each: "\<forall>i < Size v. subscript (vector_of ?c ys) i = subscript v i \<or>
          subscript (vector_of ?c ys) i = map_option (moved_from T) (subscript v i)"
        using nth by (auto simp: Size_def sz [symmetric] sub sub')
      have "valid (vector_of ?c ys)" by (rule valid_vector_of [OF le])
      moreover have "Size (vector_of ?c ys) = Size v" by (simp add: Size_def ly sz)
      ultimately show ?thesis
        using r each nc moves(2) by simp
    qed
  qed
  show ?thesis using sized reserve by blast
qed

theorem construct_and_reserve_roll_back_witness:
  "ctor_calls (world_of 2 2 1) < throw_at (world_of 2 2 1) \<and> fits copying_type 4 \<and>
   valid (vector_of 2 [1, 2::nat]) \<and>
   (\<exists>w'. Vector_sized copying_type 4 (world_of 2 2 1) = Inl (Throw w') \<and> live w' = 2 \<and>
          blocks w' = 1) \<and>
   (\<exists>v' w'. Reserve copying_type 4 (vector_of 2 [1, 2]) (world_of 2 2 1) =
            Inl (Throw (v', w')) \<and> v' = vector_of 2 [1, 2] \<and> live w' = 2 \<and> blocks w' = 1)"
proof -
  have a: "ctor_calls (world_of 2 2 1) < throw_at (world_of 2 2 1)" by (simp add: world_of_def)
  have f: "fits copying_type 4" by (simp add: fits_def copying_type_def)
  have b: "valid (vector_of 2 [1, 2::nat])" by (simp add: valid_vector_of)
  have c: "copy_constructible copying_type" "\<not> nothrow_move_constructible copying_type"
    "throw_at (world_of 2 2 1) \<le> ctor_calls (world_of 2 2 1) + 4"
    "throw_at (world_of 2 2 1) \<le> ctor_calls (world_of 2 2 1) + Size (vector_of 2 [1, 2::nat])"
    "Capacity (vector_of 2 [1, 2::nat]) < 4"
    "live (world_of 2 2 1) = 2" "blocks (world_of 2 2 1) = 1"
    by (simp_all add: copying_type_def world_of_def)
  show ?thesis
    using a f b c construct_and_reserve_roll_back [OF a, of copying_type 4 "vector_of 2 [1, 2::nat]"]
    by (metis (no_types, lifting))
qed

section \<open>Emplace into a full vector\<close>

lemma Emplace_full:
  assumes quiet: "quiet_for (Suc (length (ys @ zs))) w"
  shows "\<exists>w'. Emplace T (length ys) x (vector_of (length (ys @ zs)) (ys @ zs)) w =
           Inr (length ys,
                vector_of (if length (ys @ zs) \<noteq> 0 then length (ys @ zs) * 2 else 1)
                  (ys @ x # zs), w') \<and>
           throw_at w' = throw_at w \<and> live w' = live w + 1 \<and>
           blocks w' = blocks w + (if length (ys @ zs) = 0 then 1 else 0)"
proof -
  let ?i = "length ys" and ?j = "length zs"
  let ?n = "length ys + length zs"
  define m where "m = (if ?n \<noteq> 0 then ?n * 2 else 1)"
  have m: "?n < m" by (auto simp: m_def)
  let ?w1 = "w\<lparr>blocks := blocks w + 1\<rparr>"
  let ?w2 = "after_ctors 1 ?w1"
  let ?t = "replicate (m - Suc ?n) (None :: 'a option)"
  have fresh: "replicate m (None :: 'a option) =
      replicate ?i None @ None # replicate ?j None @ ?t"
  proof -
    have "m = ?i + Suc (?j + (m - Suc ?n))" using m by simp
    then have "replicate m (None :: 'a option) = replicate (?i + Suc (?j + (m - Suc ?n))) None" by simp
    then show ?thesis by (simp only: replicate_add replicate_Suc)
  qed
  have new: "RawMemory_exact m w =
      (\<lparr>buffer = Some (replicate ?i None @ None # replicate ?j None @ ?t), capacity = m\<rparr>, ?w1)"
    using m fresh by (simp add: RawMemory_exact_def Allocate_exact_def)
  have q1: "quiet_for (Suc ?n) ?w1" using quiet by simp
  have con: "construct_at (replicate ?i None @ None # replicate ?j None @ ?t) ?i x ?w1 =
      Inr (replicate ?i None @ Some x # replicate ?j None @ ?t, ?w2)"
    by (rule construct_at_index [OF _ q1]) simp
  have q2: "quiet_for ?n ?w2" by (rule quiet_for_step [OF q1])
  have s: "slots (vector_of (length (ys @ zs)) (ys @ zs)) = map Some ys @ map Some zs"
    by (simp add: slots_vector_of)
  have sz: "size_v (vector_of (length (ys @ zs)) (ys @ zs)) = ?n" by simp
  have cap: "Capacity (vector_of (length (ys @ zs)) (ys @ zs)) = ?n" by simp
  obtain old w5 where
    mig: "(if moves_elements T then
             (case uninitialized_move_n T (map Some ys @ map Some zs) 0 ?i
                     (replicate ?i None @ Some x # replicate ?j None @ ?t) 0 ?w2 of
                Inl e \<Rightarrow> Inl e
              | Inr (old, nb1, w3) \<Rightarrow>
                  uninitialized_move_n T old ?i (?n - ?i) nb1 (?i + 1) w3)
           else
             (case (case copy_keeping_source (map Some ys @ map Some zs) 0 ?i
                           (replicate ?i None @ Some x # replicate ?j None @ ?t) 0 ?w2 of
                      Inl e \<Rightarrow> Inl e
                    | Inr (old, nb1, w3) \<Rightarrow>
                        copy_keeping_source old ?i (?n - ?i) nb1 (?i + 1) w3) of
                Inl UB \<Rightarrow> Inl UB
              | Inl (Throw (old, nb', w3)) \<Rightarrow>
                  (case destroy_n nb' ?i 1 w3 of
                     Inl _ \<Rightarrow> Inl UB
                   | Inr (nb'', w4) \<Rightarrow> Inl (Throw (old, nb'', w4)))
              | Inr s \<Rightarrow> Inr s))
          = Inr (old, map Some ys @ Some x # map Some zs @ ?t, w5)"
    and des: "destroy_n old 0 ?n w5 = Inr (replicate ?n None, w5\<lparr>live := live w5 - int ?n\<rparr>)"
    and w5: "throw_at w5 = throw_at w" "live w5 = live w + 1 + int ?n" "blocks w5 = blocks w + 1"
  proof (cases "moves_elements T")
    case True
    have qa: "nothrow_move_constructible T \<or> quiet_for ?i ?w2"
      using q2 by (auto simp: quiet_for_def)
    have m1: "uninitialized_move_n T (map Some ys @ map Some zs) 0 ?i
                (replicate ?i None @ Some x # replicate ?j None @ ?t) 0 ?w2 =
              Inr (map Some (map (moved_from T) ys) @ map Some zs,
                   map Some ys @ Some x # replicate ?j None @ ?t, after_moves T ?i ?w2)"
      by (rule uninitialized_move_n_front [OF qa])
    have qb: "nothrow_move_constructible T \<or> quiet_for ?j (after_moves T ?i ?w2)"
      using q2 by (auto simp: quiet_for_def after_moves_def after_ctors_def)
    have "uninitialized_move_n T
            (map Some (map (moved_from T) ys) @ map Some zs @ [])
            (length (map Some (map (moved_from T) ys))) ?j
            ((map Some ys @ [Some x]) @ replicate ?j None @ ?t) (length (map Some ys @ [Some x]))
            (after_moves T ?i ?w2) =
          Inr (map Some (map (moved_from T) ys) @ map Some (map (moved_from T) zs) @ [],
               (map Some ys @ [Some x]) @ map Some zs @ ?t,
               after_moves T ?j (after_moves T ?i ?w2))"
      by (rule uninitialized_move_n_ok [OF qb]) simp
    then have m2: "uninitialized_move_n T (map Some (map (moved_from T) ys) @ map Some zs)
            ?i (?n - ?i) (map Some ys @ Some x # replicate ?j None @ ?t) (?i + 1)
            (after_moves T ?i ?w2) =
          Inr (map Some (map (moved_from T) (ys @ zs)),
               map Some ys @ Some x # map Some zs @ ?t,
               after_moves T ?n ?w2)"
      by (simp add: after_moves_add del: map_map)
    show ?thesis
    proof (rule that)
      show "(if moves_elements T then
             (case uninitialized_move_n T (map Some ys @ map Some zs) 0 ?i
                     (replicate ?i None @ Some x # replicate ?j None @ ?t) 0 ?w2 of
                Inl e \<Rightarrow> Inl e
              | Inr (old, nb1, w3) \<Rightarrow>
                  uninitialized_move_n T old ?i (?n - ?i) nb1 (?i + 1) w3)
           else
             (case (case copy_keeping_source (map Some ys @ map Some zs) 0 ?i
                           (replicate ?i None @ Some x # replicate ?j None @ ?t) 0 ?w2 of
                      Inl e \<Rightarrow> Inl e
                    | Inr (old, nb1, w3) \<Rightarrow>
                        copy_keeping_source old ?i (?n - ?i) nb1 (?i + 1) w3) of
                Inl UB \<Rightarrow> Inl UB
              | Inl (Throw (old, nb', w3)) \<Rightarrow>
                  (case destroy_n nb' ?i 1 w3 of
                     Inl _ \<Rightarrow> Inl UB
                   | Inr (nb'', w4) \<Rightarrow> Inl (Throw (old, nb'', w4)))
              | Inr s \<Rightarrow> Inr s))
          = Inr (map Some (map (moved_from T) (ys @ zs)),
                 map Some ys @ Some x # map Some zs @ ?t, after_moves T ?n ?w2)"
        using True by (simp only: if_True m1 sum.case prod.case m2)
      show "destroy_n (map Some (map (moved_from T) (ys @ zs))) 0 ?n (after_moves T ?n ?w2) =
          Inr (replicate ?n None,
               (after_moves T ?n ?w2)\<lparr>live := live (after_moves T ?n ?w2) - int ?n\<rparr>)"
        using destroy_n_front [of "map (moved_from T) (ys @ zs)" ?n "[]" "after_moves T ?n ?w2"]
        by (simp del: map_map map_append)
    qed (simp_all add: after_moves_def after_ctors_def)
  next
    case False
    have qa: "quiet_for ?i ?w2" using q2 by (auto simp: quiet_for_def)
    have c1: "copy_keeping_source (map Some ys @ map Some zs) 0 ?i
                (replicate ?i None @ Some x # replicate ?j None @ ?t) 0 ?w2 =
              Inr (map Some ys @ map Some zs,
                   map Some ys @ Some x # replicate ?j None @ ?t, after_ctors ?i ?w2)"
      by (rule copy_keeping_source_front [OF qa])
    have qb: "quiet_for ?j (after_ctors ?i ?w2)"
      using q2 by (auto simp: quiet_for_def after_ctors_def)
    have "copy_keeping_source (map Some ys @ map Some zs @ []) (length (map Some ys)) ?j
            ((map Some ys @ [Some x]) @ replicate ?j None @ ?t) (length (map Some ys @ [Some x]))
            (after_ctors ?i ?w2) =
          Inr (map Some ys @ map Some zs @ [],
               (map Some ys @ [Some x]) @ map Some zs @ ?t,
               after_ctors ?j (after_ctors ?i ?w2))"
      by (rule copy_keeping_source_ok [OF qb]) simp
    then have c2: "copy_keeping_source (map Some ys @ map Some zs)
            ?i (?n - ?i) (map Some ys @ Some x # replicate ?j None @ ?t) (?i + 1)
            (after_ctors ?i ?w2) =
          Inr (map Some ys @ map Some zs,
               map Some ys @ Some x # map Some zs @ ?t,
               after_ctors ?n ?w2)"
      by (simp add: after_ctors_add)
    show ?thesis
    proof (rule that)
      show "(if moves_elements T then
             (case uninitialized_move_n T (map Some ys @ map Some zs) 0 ?i
                     (replicate ?i None @ Some x # replicate ?j None @ ?t) 0 ?w2 of
                Inl e \<Rightarrow> Inl e
              | Inr (old, nb1, w3) \<Rightarrow>
                  uninitialized_move_n T old ?i (?n - ?i) nb1 (?i + 1) w3)
           else
             (case (case copy_keeping_source (map Some ys @ map Some zs) 0 ?i
                           (replicate ?i None @ Some x # replicate ?j None @ ?t) 0 ?w2 of
                      Inl e \<Rightarrow> Inl e
                    | Inr (old, nb1, w3) \<Rightarrow>
                        copy_keeping_source old ?i (?n - ?i) nb1 (?i + 1) w3) of
                Inl UB \<Rightarrow> Inl UB
              | Inl (Throw (old, nb', w3)) \<Rightarrow>
                  (case destroy_n nb' ?i 1 w3 of
                     Inl _ \<Rightarrow> Inl UB
                   | Inr (nb'', w4) \<Rightarrow> Inl (Throw (old, nb'', w4)))
              | Inr s \<Rightarrow> Inr s))
          = Inr (map Some ys @ map Some zs,
                 map Some ys @ Some x # map Some zs @ ?t, after_ctors ?n ?w2)"
        using False by (simp only: if_False c1 sum.case prod.case c2)
      show "destroy_n (map Some ys @ map Some zs) 0 ?n (after_ctors ?n ?w2) =
          Inr (replicate ?n None,
               (after_ctors ?n ?w2)\<lparr>live := live (after_ctors ?n ?w2) - int ?n\<rparr>)"
        using destroy_n_front [of "ys @ zs" ?n "[]" "after_ctors ?n ?w2"] by simp
    qed (simp_all add: after_ctors_def)
  qed
  have lt: "(?n < ?n) = False" by simp
  show ?thesis
    apply (simp only: Emplace_def cap sz lt if_False if_True refl Let_def
        m_def [symmetric] new prod.case cells_def RawMemory.simps option.case con
        sum.case s mig des)
    using w5 m apply (simp add: with_slots_def set_cells_vector_of set_cells_def
        RawMemory_Swap_def RawMemory_destroy_def Deallocate_def)
    apply (auto simp add: vector_of_def m_def)
    done
qed

section \<open>Emplace before an element, with spare capacity\<close>

lemma move_backward_loop_shift:
  "\<exists>r. move_backward_loop T (p @ map Some zs @ Some e # s) (length p + length zs) (length zs)
          (Suc (length p + length zs)) = Some (p @ Some r # map Some zs @ s)"
proof (induction zs arbitrary: e s rule: rev_induct)
  case Nil
  then show ?case by simp
next
  case (snoc y zs)
  obtain r where "move_backward_loop T (p @ map Some zs @ Some (moved_from T y) # Some y # s)
      (length p + length zs) (length zs) (Suc (length p + length zs)) =
      Some (p @ Some r # map Some zs @ Some y # s)"
    using snoc.IH [of "moved_from T y" "Some y # s"] by blast
  then show ?case
    by (simp add: nth_append list_update_append)
qed

lemma Emplace_spare:
  assumes len: "length (ys @ zs @ [z]) < c" and nt: "never_throws w"
  shows "\<exists>w'. Emplace T (length ys) x (vector_of c (ys @ zs @ [z])) w =
           Inr (length ys, vector_of c (ys @ x # zs @ [z]), w') \<and>
           throw_at w' = throw_at w \<and> live w' = live w + 1 \<and> blocks w' = blocks w"
proof -
  let ?i = "length ys" and ?j = "length zs"
  let ?n = "length (ys @ zs @ [z])"
  let ?t = "replicate (c - Suc ?n) (None :: 'a option)"
  let ?w0 = "w\<lparr>blocks := blocks w + 1\<rparr>"
  let ?w1 = "after_ctors 1 ?w0"
  let ?w2 = "after_moves T 1 ?w1"
  have le: "?n \<le> c" using len by simp
  have s: "slots (vector_of c (ys @ zs @ [z])) =
      map Some ys @ map Some zs @ Some z # None # ?t"
    using len by (simp add: slots_vector_of replicate_tail)
  have sz: "size_v (vector_of c (ys @ zs @ [z])) = Suc (?i + ?j)" by simp
  have cap: "Capacity (vector_of c (ys @ zs @ [z])) = c" by simp
  have lt: "(Suc (?i + ?j) < c) = True" using len by simp
  have c1: "ctor ?w0 = (True, ?w1)"
    using nt by (intro ctor_quiet [of 0]) (simp add: never_throws_quiet)
  have c2: "move_ctor T ?w1 = (True, ?w2)"
    using nt by (intro move_ctor_ok [of _ 0]) (simp add: never_throws_quiet after_ctors_def never_throws_def quiet_for_def)
  have rd: "(map Some ys @ map Some zs @ Some z # None # ?t) ! (Suc (?i + ?j) - 1) = Some z"
    by (simp add: nth_append)
  have up: "(map Some ys @ map Some zs @ Some z # None # ?t)
              [Suc (?i + ?j) - 1 := Some (moved_from T z), Suc (?i + ?j) := Some z] =
            map Some ys @ map Some zs @ Some (moved_from T z) # Some z # ?t"
    by (simp add: list_update_append)
  obtain r where mb0: "move_backward_loop T
        (map Some ys @ map Some zs @ Some (moved_from T z) # Some z # ?t)
        (length (map Some ys) + ?j) ?j (Suc (length (map Some ys) + ?j)) =
      Some (map Some ys @ Some r # map Some zs @ Some z # ?t)"
    using move_backward_loop_shift [of T "map Some ys" zs "moved_from T z" "Some z # ?t"]
    by blast
  have mb: "move_backward T (map Some ys @ map Some zs @ Some (moved_from T z) # Some z # ?t)
        ?i (Suc (?i + ?j) - 1) (Suc (?i + ?j)) =
      Some (map Some ys @ Some r # map Some zs @ Some z # ?t)"
    using mb0 by (simp add: move_backward_def)
  have ck: "(?i < length (map Some ys @ Some r # map Some zs @ Some z # ?t) \<and>
             (map Some ys @ Some r # map Some zs @ Some z # ?t) ! ?i \<noteq> None) = True"
    by (simp add: nth_append)
  have fin: "(map Some ys @ Some r # map Some zs @ Some z # ?t)[?i := Some x] =
      map Some (ys @ x # zs @ [z]) @ replicate (c - length (ys @ x # zs @ [z])) None"
    by (simp add: list_update_append)
  have l0: "(Suc (?i + ?j) = 0) = False" by simp
  have l1: "(Suc (?i + ?j) < length (map Some ys @ map Some zs @ Some z # None # ?t)) = True"
    using len by simp
  have le': "length (ys @ x # zs @ [z]) \<le> c" using len by simp
  show ?thesis
    apply (simp only: Emplace_def cap sz lt if_True c1 prod.case bool.case l0 if_False s l1 rd
        option.case c2 up mb ck fin with_slots_vector_of [OF le'])
    using nt apply (simp add: after_moves_def after_ctors_def)
    done
qed

text \<open>
  Where \<^verbatim>\<open>Insert\<close> is defined it inserts: into a full vector at any position up to the end,
  and into a vector with spare capacity before an existing element.
\<close>

lemma Insert_where_defined:
  assumes "valid v" and "never_throws w" and "i \<le> Size v"
    and "Size v = Capacity v \<or> i < Size v"
  shows "\<exists>v' w'. Insert T i x v w = Inr (i, v', w') \<and> valid v' \<and>
           elems v' = take i (elems v) @ x # drop i (elems v) \<and> live w' = live w + 1"
proof -
  let ?c = "Capacity v" and ?es = "elems v"
  have v: "v = vector_of ?c ?es" by (rule valid_canonical [OF assms(1)])
  have sz: "length ?es = size_v v" using assms(1) by (rule valid_length_elems)
  have len: "length ?es \<le> ?c" using assms(1) by (simp add: sz valid_size_le)
  define ys where "ys = take i ?es"
  define zs where "zs = drop i ?es"
  have es: "?es = ys @ zs" and ly: "length ys = i"
    using assms(3) by (simp_all add: ys_def zs_def sz Size_def)
  show ?thesis
  proof (cases "Size v = ?c")
    case True
    then have c: "?c = length (ys @ zs)" using es sz by (simp add: Size_def)
    let ?m = "if length (ys @ zs) \<noteq> 0 then length (ys @ zs) * 2 else 1"
    obtain w' where e: "Emplace T (length ys) x (vector_of (length (ys @ zs)) (ys @ zs)) w =
           Inr (length ys, vector_of ?m (ys @ x # zs), w')" and l: "live w' = live w + 1"
      using Emplace_full [OF never_throws_quiet [OF assms(2)], where ys = ys and zs = zs
          and T = T and x = x] by blast
    have "Insert T i x v w = Inr (i, vector_of ?m (ys @ x # zs), w')"
      using e v c es ly by (simp add: Insert_def)
    moreover have le: "length (ys @ x # zs) \<le> ?m" by (cases ys; cases zs) auto
    ultimately show ?thesis
      using l by (auto simp: valid_vector_of elems_vector_of ys_def zs_def simp del: length_append)
  next
    case False
    then have i: "i < size_v v" using assms(4) by (simp add: Size_def)
    then have "zs \<noteq> []" by (simp add: zs_def sz)
    then obtain zs' z where zs: "zs = zs' @ [z]" by (cases zs rule: rev_cases) auto
    have "length ?es \<noteq> ?c" using False by (simp add: Size_def sz)
    then have "length ?es < ?c" using len by simp
    then have lt: "length (ys @ zs' @ [z]) < ?c" using es zs by simp
    obtain w' where e: "Emplace T (length ys) x (vector_of ?c (ys @ zs' @ [z])) w =
           Inr (length ys, vector_of ?c (ys @ x # zs' @ [z]), w')" and l: "live w' = live w + 1"
      using Emplace_spare [OF lt assms(2), of T x] by blast
    have "Insert T i x v w = Inr (i, vector_of ?c (ys @ x # zs), w')"
      using e v es zs ly by (simp add: Insert_def)
    moreover have le: "length (ys @ x # zs) \<le> ?c" using lt zs by simp
    ultimately show ?thesis
      using l by (auto simp: valid_vector_of elems_vector_of ys_def zs_def simp del: length_append)
  qed
qed

text \<open>
  With spare capacity, \<^verbatim>\<open>Emplace\<close> at \<^verbatim>\<open>end()\<close> has undefined behaviour once the temporary
  has been constructed.
\<close>

lemma Emplace_at_end_with_spare:
  assumes "valid v" and "never_throws w" and "Size v < Capacity v"
  shows "Emplace T (Size v) x v w = Inl UB"
proof -
  let ?c = "Capacity v" and ?es = "elems v"
  have v: "v = vector_of ?c ?es" by (rule valid_canonical [OF assms(1)])
  have sz: "length ?es = size_v v" using assms(1) by (rule valid_length_elems)
  have len: "length ?es < ?c" using assms(3) by (simp add: sz Size_def)
  have c1: "ctor (w\<lparr>blocks := blocks w + 1\<rparr>) = (True, after_ctors 1 (w\<lparr>blocks := blocks w + 1\<rparr>))"
    using assms(2) by (intro ctor_quiet [of 0]) (simp add: never_throws_quiet)
  have c2: "move_ctor T (after_ctors 1 (w\<lparr>blocks := blocks w + 1\<rparr>)) =
      (True, after_moves T 1 (after_ctors 1 (w\<lparr>blocks := blocks w + 1\<rparr>)))"
    using assms(2)
    by (intro move_ctor_ok [of _ 0])
      (simp add: never_throws_quiet after_ctors_def never_throws_def quiet_for_def)
  have mb: "move_backward T b (size_v v) (size_v v - 1) (size_v v) = None"
    if "size_v v \<noteq> 0" for b
    using that by (simp add: move_backward_def)
  show ?thesis
    using assms(3) c1 c2 mb
    by (auto simp: Emplace_def Size_def split: option.splits)
qed

section \<open>Copy assignment where it is right\<close>

lemma vector_of_size_v [simp]: "(vector_of c xs)\<lparr>size_v := length xs\<rparr> = vector_of c xs"
  by (simp add: vector_of_def)

lemma copy_n_ok:
  "length ys = length xs \<Longrightarrow>
   copy_n (p @ map Some xs @ s) (length p) (length xs) (q @ map Some ys @ t) (length q) =
     Some (q @ map Some xs @ t)"
proof (induction xs arbitrary: p q ys)
  case Nil
  then show ?case by simp
next
  case (Cons x xs)
  then obtain y ys' where ys: "ys = y # ys'" and len: "length ys' = length xs"
    by (cases ys) auto
  have "copy_n ((p @ [Some x]) @ map Some xs @ s) (length (p @ [Some x])) (length xs)
          ((q @ [Some x]) @ map Some ys' @ t) (length (q @ [Some x])) =
        Some ((q @ [Some x]) @ map Some xs @ t)"
    by (rule Cons.IH [OF len])
  then show ?case
    by (simp add: ys nth_append)
qed

lemma copy_n_front:
  "length ys = length xs \<Longrightarrow>
   copy_n (map Some xs @ s) 0 (length xs) (map Some ys @ t) 0 = Some (map Some xs @ t)"
  using copy_n_ok [of ys xs "[]" s "[]" t] by simp

lemma Vector_copy_ok:
  assumes len: "length xs \<le> c" and quiet: "quiet_for (length xs) w"
  shows "Vector_copy (vector_of c xs) w =
           Inr (vector_of (length xs) xs,
                (after_ctors (length xs) w)
                  \<lparr>blocks := blocks w + (if length xs = 0 then 0 else 1)\<rparr>)"
proof (cases "xs = []")
  case True
  then show ?thesis
    by (simp add: Vector_copy_def RawMemory_exact_def Allocate_exact_def uninitialized_copy_n_def
        cells_def set_cells_def vector_of_def after_ctors_def)
next
  case False
  let ?k = "length xs"
  let ?w1 = "w\<lparr>blocks := blocks w + 1\<rparr>"
  have new: "RawMemory_exact ?k w =
      (\<lparr>buffer = Some (replicate ?k (None :: 'a option)), capacity = ?k\<rparr>, ?w1)"
    using False by (simp add: RawMemory_exact_def Allocate_exact_def)
  have q1: "quiet_for ?k ?w1" using quiet by simp
  have u: "uninitialized_copy_n (map Some xs @ replicate (c - ?k) None) 0 ?k
             (replicate ?k None) 0 ?w1 = Inr (map Some xs, after_ctors ?k ?w1)"
    using uninitialized_copy_n_ok [OF q1, of "replicate ?k None" "[]" "replicate (c - ?k) None" "[]" "[]"]
    by simp
  show ?thesis
    unfolding Vector_copy_def size_v_vector_of new prod.case slots_vector_of [OF len] cells_def
      RawMemory.simps option.case u
    using False by (simp add: set_cells_def vector_of_def after_ctors_def)
qed

lemma Vector_destroy_ok:
  assumes len: "length xs \<le> c"
  shows "Vector_destroy (vector_of c xs) w =
           Some (w\<lparr>live := live w - int (length xs),
                   blocks := blocks w - (if c = 0 then 0 else 1)\<rparr>)"
proof -
  have d: "destroy_n (map Some xs @ replicate (c - length xs) None) 0 (length xs) w =
      Inr (replicate (length xs) None @ replicate (c - length xs) None,
           w\<lparr>live := live w - int (length xs)\<rparr>)"
    by (rule destroy_n_front) simp
  show ?thesis
    unfolding Vector_destroy_def size_v_vector_of slots_vector_of [OF len] d
    by (simp add: RawMemory_destroy_def Deallocate_def vector_of_def)
qed

lemma Swap_pair: "Swap a b = (b, a)"
  by (simp add: Swap_def RawMemory_Swap_def)

lemma copy_assign_where_defined:
  assumes "valid a" and "valid b" and "never_throws w"
    and "Capacity a < Size b \<or> Size b \<le> Size a \<or> Size a = 0"
  shows "\<exists>a' w'. copy_assign a b w = Inr (a', w') \<and> valid a' \<and> elems a' = elems b \<and>
           live w' = live w + int (Size b) - int (Size a)"
proof -
  let ?c = "Capacity a" and ?xs = "elems a" and ?d = "Capacity b" and ?ys = "elems b"
  have a: "a = vector_of ?c ?xs" by (rule valid_canonical [OF assms(1)])
  have b: "b = vector_of ?d ?ys" by (rule valid_canonical [OF assms(2)])
  have sa: "length ?xs = size_v a" using assms(1) by (rule valid_length_elems)
  have sb: "length ?ys = size_v b" using assms(2) by (rule valid_length_elems)
  have la: "length ?xs \<le> ?c" using assms(1) by (simp add: sa valid_size_le)
  have lb: "length ?ys \<le> ?d" using assms(2) by (simp add: sb valid_size_le)
  have q: "quiet_for n w" for n by (rule never_throws_quiet [OF assms(3)])
  have sizes: "?c < length ?ys \<or> length ?ys \<le> length ?xs \<or> ?xs = []"
    using assms(4) sa sb by (auto simp: Size_def)
  consider (swap) "?c < length ?ys"
    | (shrink) "length ?ys \<le> ?c" "length ?ys < length ?xs"
    | (same) "length ?ys \<le> ?c" "length ?ys = length ?xs"
    | (fill) "length ?ys \<le> ?c" "?xs = []" "?ys \<noteq> []"
    using sizes
    by (cases "?c < length ?ys"; cases "length ?ys < length ?xs";
        cases "length ?ys = length ?xs") auto
  then have "\<exists>a' w'. copy_assign (vector_of ?c ?xs) (vector_of ?d ?ys) w = Inr (a', w') \<and>
           valid a' \<and> elems a' = ?ys \<and> live w' = live w + int (length ?ys) - int (length ?xs)"
  proof cases
    case swap
    have cp: "Vector_copy (vector_of ?d ?ys) w =
           Inr (vector_of (length ?ys) ?ys,
                (after_ctors (length ?ys) w)
                  \<lparr>blocks := blocks w + (if length ?ys = 0 then 0 else 1)\<rparr>)"
      by (rule Vector_copy_ok [OF lb q])
    have gt: "(capacity (data (vector_of ?c ?xs)) < size_v (vector_of ?d ?ys)) = True"
      using swap by simp
    show ?thesis
      unfolding copy_assign_def gt if_True cp sum.case prod.case Swap_pair
        Vector_destroy_ok [OF la]
      by (simp add: valid_vector_of elems_vector_of after_ctors_def)
  next
    case shrink
    define k where "k = length ?ys"
    define us where "us = take k ?xs"
    define vs where "vs = drop k ?xs"
    have xs: "?xs = us @ vs" and lu: "length us = k"
      using shrink(2) by (simp_all add: us_def vs_def k_def)
    have lv: "length vs = length ?xs - k" by (simp add: vs_def)
    have sl: "slots (vector_of ?c ?xs) = map Some us @ map Some vs @ replicate (?c - length ?xs) None"
      using la xs by (metis slots_vector_of map_append append_assoc)
    have cn: "copy_n (map Some ?ys @ replicate (?d - length ?ys) None) 0 (length ?ys)
                (map Some us @ map Some vs @ replicate (?c - length ?xs) None) 0 =
              Some (map Some ?ys @ map Some vs @ replicate (?c - length ?xs) None)"
      by (rule copy_n_front) (simp add: lu k_def)
    have "destroy_n ((map Some ?ys) @ map Some vs @ replicate (?c - length ?xs) None)
            (length (map Some ?ys)) (length vs) w =
          Inr (map Some ?ys @ replicate (length vs) None @ replicate (?c - length ?xs) None,
               w\<lparr>live := live w - int (length vs)\<rparr>)"
      by (rule destroy_n_run)
    then have de: "destroy_n (map Some ?ys @ map Some vs @ replicate (?c - length ?xs) None)
            (length ?ys) (length ?xs - length ?ys) w =
          Inr (map Some ?ys @ replicate (?c - length ?ys) None,
               w\<lparr>live := live w - int (length ?xs - length ?ys)\<rparr>)"
      using shrink la by (simp add: lv k_def replicate_add [symmetric])
    have c1: "(capacity (data (vector_of ?c ?xs)) < size_v (vector_of ?d ?ys)) = False"
      using shrink by simp
    have c2: "(Size (vector_of ?d ?ys) < size_v (vector_of ?c ?xs)) = True"
      using shrink by simp
    show ?thesis
      unfolding copy_assign_def c1 c2 if_True if_False Size_vector_of size_v_vector_of
        slots_vector_of [OF lb] sl cn option.case de sum.case prod.case
        with_slots_vector_of [OF shrink(1)]
      using shrink by (simp add: valid_vector_of elems_vector_of)
  next
    case same
    have cn: "copy_n (map Some ?ys @ replicate (?d - length ?ys) None) 0 (length ?xs)
                (map Some ?xs @ replicate (?c - length ?xs) None) 0 =
              Some (map Some ?ys @ replicate (?c - length ?xs) None)"
      using copy_n_front [of ?xs ?ys "replicate (?d - length ?ys) None"
          "replicate (?c - length ?xs) None"] same by simp
    have c1: "(capacity (data (vector_of ?c ?xs)) < size_v (vector_of ?d ?ys)) = False"
      using same by simp
    have c2: "(Size (vector_of ?d ?ys) < size_v (vector_of ?c ?xs)) = False"
      using same by simp
    have k0: "length ?ys - length ?xs = 0" using same by simp
    have r: "with_slots (vector_of ?c ?xs) (map Some ?ys @ replicate (?c - length ?xs) None) =
        (vector_of ?c ?ys)\<lparr>size_v := length ?xs\<rparr>"
      using with_slots_vector_of [OF same(1), of ?xs] same by simp
    show ?thesis
      unfolding copy_assign_def c1 c2 if_False Size_vector_of size_v_vector_of
        slots_vector_of [OF lb] slots_vector_of [OF la] cn option.case k0
      using same
      by (simp add: uninitialized_copy_n_def r vector_of_size_v_eq valid_vector_of elems_vector_of)
  next
    case fill
    have c1: "(capacity (data (vector_of ?c ?xs)) < size_v (vector_of ?d ?ys)) = False"
      using fill by simp
    have c2: "(Size (vector_of ?d ?ys) < size_v (vector_of ?c ?xs)) = False"
      using fill by simp
    have sl: "slots (vector_of ?c ?xs) =
        replicate (length ?ys) None @ replicate (?c - length ?ys) None"
      using fill by (simp add: slots_vector_of replicate_add [symmetric])
    have u: "uninitialized_copy_n (map Some ?ys @ replicate (?d - length ?ys) None) 0
               (length ?ys) (replicate (length ?ys) None @ replicate (?c - length ?ys) None) 0 w =
             Inr (map Some ?ys @ replicate (?c - length ?ys) None, after_ctors (length ?ys) w)"
      using uninitialized_copy_n_ok [OF q, of "replicate (length ?ys) None" ?ys "[]"
          "replicate (?d - length ?ys) None" "[]" "replicate (?c - length ?ys) None"]
      by simp
    have sx: "size_v (vector_of ?c ?xs) = 0" using fill by simp
    have k0: "length ?ys - 0 = length ?ys" by simp
    show ?thesis
      unfolding copy_assign_def c1 c2 if_False Size_vector_of sx k0 copy_n.simps option.case
        slots_vector_of [OF lb] sl u sum.case prod.case with_slots_vector_of [OF fill(1)]
      using fill by (simp add: valid_vector_of elems_vector_of after_ctors_def)
  qed
  then show ?thesis
    using a b sa sb by (simp add: Size_def)
qed

text \<open>
  In the remaining case, a non-empty vector that grows within its capacity, copy assignment
  returns a vector whose last slot below \<open>size_v\<close> holds no object.
\<close>

lemma copy_assign_grow_in_place:
  assumes "valid a" and "valid b" and "never_throws w"
    and "0 < Size a" and "Size a < Size b" and "Size b \<le> Capacity a"
  shows "\<exists>a' w'. copy_assign a b w = Inr (a', w') \<and> Size a' = Size b \<and>
           subscript a' (Size b - 1) = None \<and> \<not> valid a'"
proof -
  let ?c = "Capacity a" and ?xs = "elems a" and ?d = "Capacity b" and ?ys = "elems b"
  let ?x = "length ?xs" and ?y = "length ?ys"
  have a: "a = vector_of ?c ?xs" by (rule valid_canonical [OF assms(1)])
  have b: "b = vector_of ?d ?ys" by (rule valid_canonical [OF assms(2)])
  have sa: "?x = size_v a" using assms(1) by (rule valid_length_elems)
  have sb: "?y = size_v b" using assms(2) by (rule valid_length_elems)
  have la: "?x \<le> ?c" using assms(1) by (simp add: sa valid_size_le)
  have lb: "?y \<le> ?d" using assms(2) by (simp add: sb valid_size_le)
  have x0: "0 < ?x" and xy: "?x < ?y" and yc: "?y \<le> ?c"
    using assms(4-6) by (simp_all add: sa sb Size_def)
  define us where "us = take ?x ?ys"
  define vs where "vs = drop ?x ?ys"
  have ys: "?ys = us @ vs" and lu: "length us = ?x"
    using xy by (simp_all add: us_def vs_def)
  define b1 where "b1 = map Some us @ replicate (?c - ?x) (None :: 'a option)"
  have lb1: "length b1 = ?c" using la by (simp add: b1_def lu)
  have cn: "copy_n (map Some ?ys @ replicate (?d - ?y) None) 0 ?x
             (map Some ?xs @ replicate (?c - ?x) None) 0 = Some b1"
    using copy_n_front [of ?xs us "map Some vs @ replicate (?d - ?y) None"
        "replicate (?c - ?x) None"] ys lu
    by (metis b1_def map_append append_assoc)
  define k where "k = ?y - ?x"
  define ws where "ws = take k ?ys"
  have lw: "length ws = k" using xy by (simp add: ws_def k_def)
  have ksplit: "?ys = ws @ drop k ?ys" by (simp add: ws_def)
  have kc: "k \<le> ?c" using yc by (simp add: k_def)
  have q: "quiet_for (length ws) w" by (rule never_throws_quiet [OF assms(3)])
  have "uninitialized_copy_n ([] @ map Some ws @ (map Some (drop k ?ys) @ replicate (?d - ?y) None))
          (length ([] :: 'a option list)) (length ws) ([] @ take k b1 @ drop k b1)
          (length ([] :: 'a option list)) w =
        Inr ([] @ map Some ws @ drop k b1, after_ctors (length ws) w)"
    by (rule uninitialized_copy_n_ok [OF q]) (simp add: lw lb1 kc)
  then have u: "uninitialized_copy_n (map Some ?ys @ replicate (?d - ?y) None) 0 (?y - ?x) b1 0 w =
        Inr (map Some ws @ drop k b1, after_ctors k w)"
    using ksplit by (simp add: lw k_def) (metis map_append append_assoc)
  have c1: "(capacity (data (vector_of ?c ?xs)) < size_v (vector_of ?d ?ys)) = False"
    using yc by simp
  have c2: "(Size (vector_of ?d ?ys) < size_v (vector_of ?c ?xs)) = False"
    using xy by simp
  define a' where "a' = (with_slots (vector_of ?c ?xs) (map Some ws @ drop k b1))\<lparr>size_v := ?y\<rparr>"
  have r: "copy_assign (vector_of ?c ?xs) (vector_of ?d ?ys) w = Inr (a', after_ctors k w)"
    unfolding copy_assign_def c1 c2 if_False
    unfolding Size_vector_of size_v_vector_of
      slots_vector_of [OF lb] slots_vector_of [OF la] cn option.case u sum.case prod.case a'_def
    by simp
  have c0: "?c \<noteq> 0" using yc xy by simp
  have sl: "slots a' = map Some ws @ drop k b1"
    using c0 by (simp add: a'_def with_slots_def set_cells_vector_of slots_def cells_def)
  have ky: "k \<le> ?y - 1" unfolding k_def using x0 xy by linarith
  have "(map Some ws @ drop k b1) ! (?y - 1) = b1 ! (?y - 1)"
    using ky kc lb1 yc xy by (simp add: nth_append lw)
  also have "\<dots> = None"
    using xy yc by (simp add: b1_def nth_append lu)
  finally have last_slot: "slots a' ! (?y - 1) = None" by (simp add: sl)
  have len: "length (slots a') = ?c" using kc lb1 by (simp add: sl lw)
  have sz: "size_v a' = ?y" by (simp add: a'_def)
  have sub: "subscript a' (?y - 1) = None"
    using xy yc last_slot by (simp add: subscript_def sz len)
  have "\<not> list_all (\<lambda>c. c \<noteq> None) (take (size_v a') (slots a'))"
  proof
    assume "list_all (\<lambda>c. c \<noteq> None) (take (size_v a') (slots a'))"
    then have "\<forall>i < ?y. slots a' ! i \<noteq> None"
      using yc by (simp add: list_all_length sz len)
    then show False using last_slot xy by (metis diff_less less_nat_zero_code not_gr_zero zero_less_one)
  qed
  then have nv: "\<not> valid a'" by (simp add: valid_def)
  show ?thesis
    using r sub nv sz a b sb by (metis Size_def)
qed

section \<open>EmplaceBack when a constructor throws\<close>

text \<open>
  A full vector whose elements are copied on reallocation, with the throwing constructor
  call among those of the \<^verbatim>\<open>EmplaceBack\<close>: the vector and the number of blocks are as
  before; the number of live objects is as before when the new element's constructor
  throws, and one higher when a copy throws.
\<close>

lemma EmplaceBack_full_throws:
  assumes copy: "\<not> moves_elements T"
    and t1: "ctor_calls w < throw_at w" and t2: "throw_at w \<le> ctor_calls w + Suc (length xs)"
  shows "EmplaceBack T x (vector_of (length xs) xs) w =
           Inl (Throw (vector_of (length xs) xs,
                       w\<lparr>ctor_calls := throw_at w,
                         live := live w + (if throw_at w = Suc (ctor_calls w) then 0 else 1)\<rparr>))"
proof -
  let ?k = "length xs"
  define m where "m = (if ?k \<noteq> 0 then ?k * 2 else 1)"
  have m: "?k < m" by (auto simp: m_def)
  let ?w1 = "w\<lparr>blocks := blocks w + 1\<rparr>"
  let ?t = "replicate (m - Suc ?k) (None :: 'a option)"
  have fresh: "replicate m (None :: 'a option) = replicate ?k None @ None # ?t"
    using m by (simp add: replicate_split [of ?k m] replicate_tail)
  have new: "RawMemory_exact m w = (\<lparr>buffer = Some (replicate ?k None @ None # ?t), capacity = m\<rparr>, ?w1)"
    using m fresh by (simp add: RawMemory_exact_def Allocate_exact_def)
  have s: "slots (vector_of ?k xs) = map Some xs"
    by (simp add: slots_vector_of)
  show ?thesis
  proof (cases "throw_at w = Suc (ctor_calls w)")
    case True
    then have "throw_at ?w1 = Suc (ctor_calls ?w1)" by simp
    then have con: "construct_at (replicate ?k None @ None # ?t) ?k x ?w1 =
        Inl (Throw (replicate ?k None @ None # ?t, ?w1\<lparr>ctor_calls := throw_at ?w1\<rparr>))"
      using construct_at_throws [of ?w1 "replicate ?k None" None ?t x] by simp
    show ?thesis
      apply (simp only: EmplaceBack_def Capacity_vector_of size_v_vector_of if_True Let_def
          m_def [symmetric] new prod.case cells_def RawMemory.simps option.case con sum.case
          error.case)
      using True apply (simp add: set_cells_def RawMemory_destroy_def Deallocate_def)
      done
  next
    case False
    then have q1: "quiet_for (Suc 0) ?w1" using t1 by (simp add: quiet_for_def)
    let ?w2 = "after_ctors 1 ?w1"
    have con: "construct_at (replicate ?k None @ None # ?t) ?k x ?w1 =
        Inr (replicate ?k None @ Some x # ?t, ?w2)"
      by (rule construct_at_index [OF _ q1]) simp
    have a: "ctor_calls ?w2 < throw_at ?w2" "throw_at ?w2 \<le> ctor_calls ?w2 + ?k"
      using False t1 t2 by (simp_all add: after_ctors_def)
    have mig: "(if moves_elements T
        then uninitialized_move_n T (map Some xs) 0 ?k (replicate ?k None @ Some x # ?t) 0 ?w2
        else copy_keeping_source (map Some xs) 0 ?k (replicate ?k None @ Some x # ?t) 0 ?w2)
       = Inl (Throw (map Some xs, replicate ?k None @ Some x # ?t,
                     ?w2\<lparr>ctor_calls := throw_at ?w2\<rparr>))"
      using copy copy_keeping_source_front_throw [OF a, of "[]" "Some x # ?t"]
      by (simp only: if_False append_Nil2)
    have k0: "?k \<noteq> 0" using a by auto
    show ?thesis
      apply (simp only: EmplaceBack_def Capacity_vector_of size_v_vector_of if_True Let_def
          m_def [symmetric] new prod.case cells_def RawMemory.simps option.case con sum.case s
          mig error.case)
      using False k0 apply (simp add: with_slots_def set_cells_vector_of set_cells_def
          RawMemory_destroy_def Deallocate_def after_ctors_def)
      apply (simp add: vector_of_def)
      done
  qed
qed

section \<open>Where the code departs from its description\<close>

text \<open>
  C1. Copy assignment \<^verbatim>\<open>a = b\<close> with \<open>a = [1]\<close> of capacity 2 and \<open>b = [5, 6]\<close>, so that
  \<^verbatim>\<open>b.Size() <= a.Capacity()\<close> and \<open>b\<close> is larger than \<open>a\<close>. The call
  \<^verbatim>\<open>std::uninitialized_copy_n(rhs.data_.GetAddress(), rhs.Size() - size_, data_.GetAddress())\<close>
  starts at the beginning of both blocks instead of at offset \<^verbatim>\<open>size_\<close>: it constructs a
  copy of \<open>b[0]\<close> over the live \<open>a[0]\<close> and leaves slot 1 without an object, although
  \<^verbatim>\<open>size_\<close> becomes 2. \<open>a[1]\<close> is not \<open>b[1]\<close>; reading it is undefined behaviour. The world
  counts 4 live objects where the two vectors hold 3: the object overwritten in slot 0 was
  never destroyed. The other cases of copy assignment are right (\<open>copy_assign_where_defined\<close>);
  this one never is (\<open>copy_assign_grow_in_place\<close>).
\<close>

theorem copy_assign_grow_in_place_misses_tail:
  "Size (vector_of 2 [5, 6::nat]) \<le> Capacity (vector_of 2 [1::nat]) \<and>
   operator_assign_copy 0 1
     ((\<lambda>_. Vector_default)(0 := vector_of 2 [1::nat], 1 := vector_of 2 [5, 6])) (world_of 0 3 2) =
     Inr (((\<lambda>_. Vector_default)(0 := vector_of 2 [1::nat], 1 := vector_of 2 [5, 6]))
            (0 := \<lparr>data = \<lparr>buffer = Some [Some 5, None], capacity = 2\<rparr>, size_v = 2\<rparr>),
          \<lparr>ctor_calls = 1, throw_at = 0, live = 4, blocks = 2\<rparr>) \<and>
   copy_assign (vector_of 2 [1::nat]) (vector_of 2 [5, 6]) (world_of 0 3 2) =
     Inr (\<lparr>data = \<lparr>buffer = Some [Some 5, None], capacity = 2\<rparr>, size_v = 2\<rparr>,
          \<lparr>ctor_calls = 1, throw_at = 0, live = 4, blocks = 2\<rparr>) \<and>
   subscript \<lparr>data = \<lparr>buffer = Some [Some 5, None], capacity = 2\<rparr>, size_v = 2\<rparr> 1 = None \<and>
   subscript (vector_of 2 [5, 6::nat]) 1 = Some 6"
proof -
  have body: "copy_assign (vector_of 2 [1::nat]) (vector_of 2 [5, 6]) (world_of 0 3 2) =
     Inr (\<lparr>data = \<lparr>buffer = Some [Some 5, None], capacity = 2\<rparr>, size_v = 2\<rparr>,
          \<lparr>ctor_calls = 1, throw_at = 0, live = 4, blocks = 2\<rparr>)"
    by code_simp
  have reads: "Size (vector_of 2 [5, 6::nat]) \<le> Capacity (vector_of 2 [1::nat]) \<and>
     subscript \<lparr>data = \<lparr>buffer = Some [Some 5, None], capacity = 2\<rparr>, size_v = 2\<rparr> 1 = None \<and>
     subscript (vector_of 2 [5, 6::nat]) 1 = Some 6"
    by code_simp
  have "operator_assign_copy 0 1
     ((\<lambda>_. Vector_default)(0 := vector_of 2 [1::nat], 1 := vector_of 2 [5, 6])) (world_of 0 3 2) =
     Inr (((\<lambda>_. Vector_default)(0 := vector_of 2 [1::nat], 1 := vector_of 2 [5, 6]))
            (0 := \<lparr>data = \<lparr>buffer = Some [Some 5, None], capacity = 2\<rparr>, size_v = 2\<rparr>),
          \<lparr>ctor_calls = 1, throw_at = 0, live = 4, blocks = 2\<rparr>)"
  proof -
    have a: "((\<lambda>_. Vector_default)(0 := vector_of 2 [1::nat], 1 := vector_of 2 [5, 6])) (0::nat) =
        vector_of 2 [1]"
      and b: "((\<lambda>_. Vector_default)(0 := vector_of 2 [1::nat], 1 := vector_of 2 [5, 6])) (1::nat) =
        vector_of 2 [5, 6]"
      by simp_all
    show ?thesis
      unfolding operator_assign_copy_def a b body by simp
  qed
  then show ?thesis using body reads by blast
qed

text \<open>
  C2. \<^verbatim>\<open>Insert\<close> at \<^verbatim>\<open>begin()\<close> into an empty vector of capacity 1 (spare capacity
  exists): the branch \<^verbatim>\<open>size_ < Capacity()\<close> evaluates \<^verbatim>\<open>*(end() - 1)\<close>, an object before
  the start of the block. The same branch, for an insertion at \<^verbatim>\<open>end()\<close> into \<open>[3]\<close> of
  capacity 2, calls \<^verbatim>\<open>std::move_backward(begin() + 1, end() - 1, end())\<close> with
  \<open>first > last\<close>. Both are undefined behaviour, where the claim promises a vector of size
  \<open>n + 1\<close>. Insertion before an existing element, and insertion into a full vector, do what
  the claim says (\<open>Insert_where_defined\<close>); insertion at the end with spare capacity never
  does (\<open>Emplace_at_end_with_spare\<close>).
\<close>

theorem insert_with_spare_capacity_at_end:
  "valid (vector_of 1 ([] :: nat list)) \<and>
   Insert copying_type 0 7 (vector_of 1 []) (world_of 0 0 1) = Inl UB \<and>
   Emplace copying_type 0 7 (vector_of 1 []) (world_of 0 0 1) = Inl UB \<and>
   valid (vector_of 2 [3::nat]) \<and>
   Insert copying_type 1 7 (vector_of 2 [3]) (world_of 0 1 1) = Inl UB \<and>
   Insert copying_type 0 7 (vector_of 2 [3]) (world_of 0 1 1) =
     Inr (0, vector_of 2 [7, 3], \<lparr>ctor_calls = 2, throw_at = 0, live = 2, blocks = 1\<rparr>) \<and>
   Insert copying_type 1 7 (vector_of 1 [3]) (world_of 0 1 1) =
     Inr (1, vector_of 2 [3, 7], \<lparr>ctor_calls = 2, throw_at = 0, live = 2, blocks = 1\<rparr>)"
  by code_simp

text \<open>
  C3. \<^verbatim>\<open>EmplaceBack\<close> on the full vector \<open>[4]\<close> (size 1, capacity 1) of a type whose
  elements are copied on reallocation, where the second constructor call of the world, the
  copy of the old element into the new block, throws. The vector is left as it was and
  the new block is released (one block, as before), but the world counts 2 live objects
  where the vector holds 1: the new element, constructed first in the new block, is never
  destroyed (in general: \<open>EmplaceBack_full_throws\<close>). \<^verbatim>\<open>Emplace\<close> has a handler for this
  case; \<^verbatim>\<open>EmplaceBack\<close> has none.
\<close>

theorem emplace_back_leaks_new_element:
  "size_v (vector_of 1 [4::nat]) = Capacity (vector_of 1 [4::nat]) \<and>
   EmplaceBack copying_type 9 (vector_of 1 [4]) (world_of 2 1 1) =
     Inl (Throw (vector_of 1 [4], \<lparr>ctor_calls = 2, throw_at = 2, live = 2, blocks = 1\<rparr>)) \<and>
   Emplace copying_type 1 9 (vector_of 1 [4]) (world_of 2 1 1) =
     Inl (Throw (vector_of 1 [4], \<lparr>ctor_calls = 2, throw_at = 2, live = 1, blocks = 1\<rparr>))"
  by code_simp

text \<open>
  C5. The copy assignment of C1 starts from two vectors that satisfy the invariant and ends
  with \<open>size_v = 2\<close> over a block whose slot 1 holds no object: \<open>size \<le> capacity\<close> holds,
  but the slots \<open>[0, size)\<close> do not all hold live elements.
\<close>

theorem copy_assign_breaks_live_prefix:
  "valid (vector_of 2 [1::nat]) \<and> valid (vector_of 2 [5, 6::nat]) \<and>
   copy_assign (vector_of 2 [1::nat]) (vector_of 2 [5, 6]) (world_of 0 3 2) =
     Inr (\<lparr>data = \<lparr>buffer = Some [Some 5, None], capacity = 2\<rparr>, size_v = 2\<rparr>,
          \<lparr>ctor_calls = 1, throw_at = 0, live = 4, blocks = 2\<rparr>) \<and>
   \<not> valid \<lparr>data = \<lparr>buffer = Some [Some 5, None :: nat option], capacity = 2\<rparr>, size_v = 2\<rparr>"
  by code_simp

text \<open>
  C8. Move assignment \<^verbatim>\<open>b = std::move(a)\<close> with \<open>b = [7]\<close> at address 0 and \<open>a = [1, 2]\<close>
  at address 1, in a world of 3 live objects and 2 blocks. Afterwards \<open>b\<close> holds \<open>[1, 2]\<close>
  and \<open>a\<close> is empty, but nothing destroyed the element 7 or released its block: after
  both vectors have been destroyed, one live object and one block are left.
\<close>

theorem move_assign_leaks_target:
  "operator_assign_move 0 1
     ((\<lambda>_. Vector_default)(0 := vector_of 1 [7::nat], 1 := vector_of 2 [1, 2])) 0 =
     vector_of 2 [1, 2] \<and>
   operator_assign_move 0 1
     ((\<lambda>_. Vector_default)(0 := vector_of 1 [7::nat], 1 := vector_of 2 [1, 2])) 1 =
     Vector_default \<and>
   Vector_destroy (vector_of 2 [1, 2::nat]) (world_of 0 3 2) =
     Some \<lparr>ctor_calls = 0, throw_at = 0, live = 1, blocks = 1\<rparr> \<and>
   Vector_destroy (Vector_default :: nat Vector)
     \<lparr>ctor_calls = 0, throw_at = 0, live = 1, blocks = 1\<rparr> =
     Some \<lparr>ctor_calls = 0, throw_at = 0, live = 1, blocks = 1\<rparr>"
  by code_simp

end
